theory Spec2Isabelle
  imports Main "HOL-Library.Sublist"
begin

section \<open>Data model\<close>

text \<open>
  A shallow embedding of \<^verbatim>\<open>ComputationNetworkEvaluation.cpp\<close>: forward evaluation,
  gradient computation and validation of a computation network.

  Nodes are shared pointers in the source and are compared by address; here a node is
  its address. The same holds for minibatch layouts (\<^verbatim>\<open>MBLayoutPtr\<close>). The output to
  \<^verbatim>\<open>stderr\<close> and the code under \<^verbatim>\<open>DISPLAY_DEBUG\<close>, \<^verbatim>\<open>DUMPOUTPUT\<close> and \<^verbatim>\<open>_DEBUG\<close> are left
  out.
\<close>

type_synonym node = nat
type_synonym MBLayoutPtr = nat

text \<open>
  A \<^verbatim>\<open>FrameRange\<close> selects all columns of a minibatch (\<^verbatim>\<open>FrameRange(node->GetMBLayout())\<close>,
  whose layout may be null) or the columns of one time step of a layout.
\<close>

datatype FrameRange = AllFrames "MBLayoutPtr option" | Frame MBLayoutPtr nat

text \<open>
  Every virtual method that the source invokes on a node, and every helper of the network
  that is not defined in this source file, is an external call. The calls made are
  logged in order, which is what the ordering properties are stated about.
\<close>

datatype call =
    UpdateFunctionMBSize node
  | OnEvaluateBeginIteration node
  | Validate node bool
  | EvaluateThisNode node FrameRange
  | MaskMissingValuesColumnsToZero node FrameRange
  | UpdateEvalTimeStamp node
  | OnEvaluateEndIteration node
  | OnComputeGradientBeginIteration node
  | VerifyNumParallelSequences node nat
  | MaskMissingGradientColumnsToZero node FrameRange
  | ComputeGradientForChildren node FrameRange
  | OnComputeGradientEndIteration node
  | PrintSelfBeforeValidation node
  | LinkToMBLayout node MBLayoutPtr
  | MBLayoutInit MBLayoutPtr nat nat
  | ClearGradientForAllNodes node
  | ResetEvalTimeStamp
  | FormRecurrentLoops node
  | CollectInputAndLearnableParameters node

text \<open>
  \<^verbatim>\<open>LogicError\<close> and \<^verbatim>\<open>RuntimeError\<close> throw. The constructors name the throw sites:
  \<^item> \<open>NotBuilt\<close>: \<^verbatim>\<open>Evaluate\<close> on a root that is not in \<^verbatim>\<open>m_built\<close>;
  \<^item> \<open>LoopLayoutMismatch\<close>: the layout check at the start of a recurrent loop;
  \<^item> \<open>WholeBatchOnLoopNode\<close>: the \<^verbatim>\<open>IsPartOfLoop\<close> check of the whole-batch gradient branch;
  \<^item> \<open>NonStableValidation\<close>, \<open>UnvisitedChildInFinalPass\<close>: the two checks of
    \<^verbatim>\<open>ValidateNodes\<close> in the final pass;
  \<^item> \<open>WorkLeftAfterFinalPass\<close>, \<open>ZeroDimension\<close>: the checks of \<^verbatim>\<open>ValidateSubNetwork\<close>
    after the final pass;
  \<^item> \<open>InvalidAccess\<close>: \<^verbatim>\<open>recurrentNodes[0]\<close> of an empty vector, or iterating the frames
    of a null layout (undefined behaviour in the source);
  \<^item> \<open>NodeFault\<close>: an exception thrown inside an external call.
\<close>

datatype error =
    NotBuilt
  | LoopLayoutMismatch
  | WholeBatchOnLoopNode
  | NonStableValidation
  | UnvisitedChildInFinalPass
  | WorkLeftAfterFinalPass
  | ZeroDimension
  | InvalidAccess
  | NodeFault nat

text \<open>
  Modelled from the spec: the matrix type of the tensor library is not part of this
  source file. A matrix is sized \<open>rows \<times> cols\<close>; \<^verbatim>\<open>Resize\<close> changes the size,
  \<^verbatim>\<open>SetValue(v)\<close> sets every element to \<open>v\<close>, \<^verbatim>\<open>SetValue(M)\<close> overwrites the
  matrix with \<open>M\<close>.
\<close>

record 'a Matrix =
  numRows :: nat
  numCols :: nat
  elems :: "nat \<Rightarrow> nat \<Rightarrow> 'a"

definition Resize :: "nat \<Rightarrow> nat \<Rightarrow> 'a Matrix \<Rightarrow> 'a Matrix" where
  "Resize r c M = M\<lparr>numRows := r, numCols := c\<rparr>"

definition SetValue :: "'a \<Rightarrow> 'a Matrix \<Rightarrow> 'a Matrix" where
  "SetValue v M = M\<lparr>elems := (\<lambda>i j. v)\<rparr>"

definition SetValueMatrix :: "'a Matrix \<Rightarrow> 'a Matrix \<Rightarrow> 'a Matrix" where
  "SetValueMatrix src M = src"

text \<open>
  The state owned by the nodes. The members that this source file writes directly are
  fields (\<^verbatim>\<open>m_visited\<close>, \<^verbatim>\<open>m_needsGradient\<close>, the gradient matrix); everything else
  (function values, time stamps, dimensions, layouts) is the field \<open>nodeState\<close>, read through
  the queries of the node contract below. External calls may change all of it.
\<close>

record ('a, 'w) NodeStore =
  m_visited :: "node \<Rightarrow> bool"
  m_needsGradient :: "node \<Rightarrow> bool"
  GradientValues :: "node \<Rightarrow> 'a Matrix"
  nodeState :: 'w

record RecurrentInfo =
  m_recurrentNodes :: "node list"
  m_recurrentNodesForForward :: "node list"
  m_steppingDirection :: int
  m_completedEvaluate :: bool
  m_completedGradient :: bool

record ('a, 'w) ComputationNetwork =
  m_recurrentInfo :: "RecurrentInfo list"
  m_built :: "node set"
  m_pMBLayout :: MBLayoutPtr
  nodes :: "('a, 'w) NodeStore"
  trace :: "call list"

text \<open>
  The node contract: what the source uses and does not define. \<open>perform\<close> is the
  effect of an external call on the nodes' state (it may throw); the other fields are
  the queries. The structure of the graph (children, operation names, evaluation order,
  input nodes, which nodes request multi-sequence handling) does not change during the
  calls modelled here. \<^verbatim>\<open>GetNumRows\<close> and \<^verbatim>\<open>GetNumCols\<close> are the two components of
  \<^verbatim>\<open>GetDims\<close>. \<open>formRecurrentLoops\<close> and \<open>clearGradientForAllNodes\<close> are helpers of the
  network that may also rewrite \<^verbatim>\<open>m_recurrentInfo\<close>; nothing is assumed of them.
\<close>

record ('a, 'w, 'i) NodeContract =
  perform :: "call \<Rightarrow> ('a, 'w) NodeStore \<Rightarrow> error option \<times> ('a, 'w) NodeStore"
  GetChildren :: "node \<Rightarrow> node list"
  IsLeaf :: "node \<Rightarrow> bool"
  OperationName :: "node \<Rightarrow> string"
  RequiresPreCompute :: "node \<Rightarrow> bool"
  IsNodeReqMultiSeqHandling :: "node \<Rightarrow> bool"
  GetEvalOrder :: "node \<Rightarrow> node list"
  InputNodes :: "node \<Rightarrow> node list"
  IsPartOfLoop :: "('a, 'w) NodeStore \<Rightarrow> node \<Rightarrow> bool"
  IsParameterUpdateRequired :: "('a, 'w) NodeStore \<Rightarrow> node \<Rightarrow> bool"
  NodeIsFuncValueOlderThanInputs :: "('a, 'w) NodeStore \<Rightarrow> node \<Rightarrow> bool"
  GetMBLayout :: "('a, 'w) NodeStore \<Rightarrow> node \<Rightarrow> MBLayoutPtr option"
  GetDims :: "('a, 'w) NodeStore \<Rightarrow> node \<Rightarrow> nat \<times> nat"
  GetImageLayouts :: "('a, 'w) NodeStore \<Rightarrow> node \<Rightarrow> 'i"
  GetNumTimeSteps :: "('a, 'w) NodeStore \<Rightarrow> MBLayoutPtr \<Rightarrow> nat"
  GetNumParallelSequences :: "('a, 'w) NodeStore \<Rightarrow> MBLayoutPtr \<Rightarrow> nat"
  LayoutNumCols :: "('a, 'w) NodeStore \<Rightarrow> MBLayoutPtr \<Rightarrow> nat"
  formRecurrentLoops :: "node \<Rightarrow> RecurrentInfo list \<times> ('a, 'w) NodeStore \<Rightarrow>
      error option \<times> RecurrentInfo list \<times> ('a, 'w) NodeStore"
  clearGradientForAllNodes :: "node \<Rightarrow> RecurrentInfo list \<times> ('a, 'w) NodeStore \<Rightarrow>
      error option \<times> RecurrentInfo list \<times> ('a, 'w) NodeStore"

section \<open>Control flow\<close>

text \<open>
  Every method of the source is \<^verbatim>\<open>void\<close> and may throw. A method is a function from the
  state to an optional error and the state reached: after a throw the network object
  keeps the state it had at the throw.
\<close>

definition andThen :: "('s \<Rightarrow> error option \<times> 's) \<Rightarrow> ('s \<Rightarrow> error option \<times> 's) \<Rightarrow>
    's \<Rightarrow> error option \<times> 's" where
  "andThen f g s = (case f s of (None, s') \<Rightarrow> g s' | (Some e, s') \<Rightarrow> (Some e, s'))"

fun forEach :: "('x \<Rightarrow> 's \<Rightarrow> error option \<times> 's) \<Rightarrow> 'x list \<Rightarrow> 's \<Rightarrow> error option \<times> 's" where
  "forEach f [] s = (None, s)"
| "forEach f (x # xs) s =
     (case f x s of (None, s') \<Rightarrow> forEach f xs s' | (Some e, s') \<Rightarrow> (Some e, s'))"

definition whenDo :: "bool \<Rightarrow> ('s \<Rightarrow> error option \<times> 's) \<Rightarrow> 's \<Rightarrow> error option \<times> 's" where
  "whenDo b f s = (if b then f s else (None, s))"

definition callNode :: "('a, 'w, 'i) NodeContract \<Rightarrow> call \<Rightarrow> ('a, 'w) ComputationNetwork \<Rightarrow>
    error option \<times> ('a, 'w) ComputationNetwork" where
  "callNode C c s =
     (case perform C c (nodes s) of
        (r, st) \<Rightarrow> (r, s\<lparr>nodes := st, trace := trace s @ [c]\<rparr>))"

definition callNetwork :: "call \<Rightarrow>
    (RecurrentInfo list \<times> ('a, 'w) NodeStore \<Rightarrow> error option \<times> RecurrentInfo list \<times> ('a, 'w) NodeStore) \<Rightarrow>
    ('a, 'w) ComputationNetwork \<Rightarrow> error option \<times> ('a, 'w) ComputationNetwork" where
  "callNetwork c h s =
     (case h (m_recurrentInfo s, nodes s) of
        (r, ri, st) \<Rightarrow> (r, s\<lparr>m_recurrentInfo := ri, nodes := st, trace := trace s @ [c]\<rparr>))"

section \<open>Evaluation\<close>

text \<open>
  \<^verbatim>\<open>OperationNameOf(PastValueNode)\<close> and \<^verbatim>\<open>OperationNameOf(FutureValueNode)\<close>: the macro and
  the node classes are declared elsewhere; the names are those of the two delay
  operations.
\<close>

definition OperationNameOf_PastValueNode :: string where
  "OperationNameOf_PastValueNode = ''PastValue''"

definition OperationNameOf_FutureValueNode :: string where
  "OperationNameOf_FutureValueNode = ''FutureValue''"

fun IsFuncValueOlderThanInputs :: "('a, 'w, 'i) NodeContract \<Rightarrow> ('a, 'w) NodeStore \<Rightarrow>
    node list \<Rightarrow> bool" where
  "IsFuncValueOlderThanInputs C st [] = False"
| "IsFuncValueOlderThanInputs C st (p # ps) =
     (if NodeIsFuncValueOlderThanInputs C st p \<and>
         OperationName C p \<noteq> OperationNameOf_PastValueNode \<and>
         OperationName C p \<noteq> OperationNameOf_FutureValueNode
      then True
      else IsFuncValueOlderThanInputs C st ps)"

text \<open>
  \<^verbatim>\<open>FindInRecurrentLoops\<close> returns a pointer to the first loop whose \<^verbatim>\<open>m_recurrentNodes\<close>
  holds the node, or null; here the index of that loop in \<^verbatim>\<open>m_recurrentInfo\<close>.
\<close>

fun FindInRecurrentLoops :: "RecurrentInfo list \<Rightarrow> node \<Rightarrow> nat option" where
  "FindInRecurrentLoops [] n = None"
| "FindInRecurrentLoops (iter # rest) n =
     (if n \<in> set (m_recurrentNodes iter) then Some 0
      else map_option Suc (FindInRecurrentLoops rest n))"

definition BuiltAndValidatedSubNetwork :: "node \<Rightarrow> ('a, 'w) ComputationNetwork \<Rightarrow> bool" where
  "BuiltAndValidatedSubNetwork rootNode s = (rootNode \<in> m_built s)"

text \<open>
  Modelled from the spec: \<^verbatim>\<open>FrameRangeIteration\<close> is declared elsewhere. It yields the
  time steps of a layout in forward (+1) or reverse (-1) order; \<^verbatim>\<open>rbegin\<close>/\<^verbatim>\<open>rend\<close>
  iterate the same range in reverse.
\<close>

definition FrameRangeIteration :: "nat \<Rightarrow> int \<Rightarrow> nat list" where
  "FrameRangeIteration T step = (if 0 < step then [0..<T] else rev [0..<T])"

definition FrameRangeIteration_reverse :: "nat \<Rightarrow> int \<Rightarrow> nat list" where
  "FrameRangeIteration_reverse T step = rev (FrameRangeIteration T step)"

definition setCompletedEvaluate :: "nat \<Rightarrow> bool \<Rightarrow> ('a, 'w) ComputationNetwork \<Rightarrow>
    ('a, 'w) ComputationNetwork" where
  "setCompletedEvaluate i b s =
     s\<lparr>m_recurrentInfo := (m_recurrentInfo s)[i := (m_recurrentInfo s ! i)\<lparr>m_completedEvaluate := b\<rparr>]\<rparr>"

definition setCompletedGradient :: "nat \<Rightarrow> bool \<Rightarrow> ('a, 'w) ComputationNetwork \<Rightarrow>
    ('a, 'w) ComputationNetwork" where
  "setCompletedGradient i b s =
     s\<lparr>m_recurrentInfo := (m_recurrentInfo s)[i := (m_recurrentInfo s ! i)\<lparr>m_completedGradient := b\<rparr>]\<rparr>"

text \<open>The three loops of \<^verbatim>\<open>Evaluate\<close> over the members of a recurrent loop.\<close>

definition loopBegin :: "('a, 'w, 'i) NodeContract \<Rightarrow> MBLayoutPtr option \<Rightarrow> node \<Rightarrow>
    ('a, 'w) ComputationNetwork \<Rightarrow> error option \<times> ('a, 'w) ComputationNetwork" where
  "loopBegin C pMBLayout node2 s =
     (if pMBLayout = None \<or> GetMBLayout C (nodes s) node2 \<noteq> pMBLayout
      then (Some LoopLayoutMismatch, s)
      else andThen (callNode C (UpdateFunctionMBSize node2))
                   (callNode C (OnEvaluateBeginIteration node2)) s)"

definition loopEvaluateFrame :: "('a, 'w, 'i) NodeContract \<Rightarrow> FrameRange \<Rightarrow> node \<Rightarrow>
    ('a, 'w) ComputationNetwork \<Rightarrow> error option \<times> ('a, 'w) ComputationNetwork" where
  "loopEvaluateFrame C t node2 =
     andThen (callNode C (EvaluateThisNode node2 t))
    (andThen (whenDo (IsNodeReqMultiSeqHandling C node2)
                (callNode C (MaskMissingValuesColumnsToZero node2 t)))
             (callNode C (UpdateEvalTimeStamp node2)))"

text \<open>
  The frame iteration of the loop branch of \<^verbatim>\<open>Evaluate\<close>:
  \<^verbatim>\<open>for (auto t = range.begin(); t != range.end(); t++) for (auto & node2 : recurrentNodes) ...\<close>
  over a layout with \<open>T\<close> time steps.
\<close>

definition EvaluateLoopFrames :: "('a, 'w, 'i) NodeContract \<Rightarrow> MBLayoutPtr \<Rightarrow> nat \<Rightarrow> int \<Rightarrow>
    node list \<Rightarrow> ('a, 'w) ComputationNetwork \<Rightarrow> error option \<times> ('a, 'w) ComputationNetwork" where
  "EvaluateLoopFrames C lay T step recurrentNodes =
     forEach (\<lambda>t. forEach (loopEvaluateFrame C (Frame lay t)) recurrentNodes)
       (FrameRangeIteration T step)"

text \<open>
  The body of the loop branch of \<^verbatim>\<open>Evaluate\<close>, for the loop with index \<open>i\<close>. The number
  of time steps of the layout is read when the frame iteration starts: the layout is
  not written while a minibatch is evaluated.
\<close>

definition EvaluateLoop :: "('a, 'w, 'i) NodeContract \<Rightarrow> nat \<Rightarrow>
    ('a, 'w) ComputationNetwork \<Rightarrow> error option \<times> ('a, 'w) ComputationNetwork" where
  "EvaluateLoop C i s =
     (let recInfo = m_recurrentInfo s ! i;
          recurrentNodes = m_recurrentNodesForForward recInfo
      in case recurrentNodes of
           [] \<Rightarrow> (Some InvalidAccess, s)
         | first # _ \<Rightarrow>
             (let pMBLayout = GetMBLayout C (nodes s) first
              in andThen (forEach (loopBegin C pMBLayout) recurrentNodes)
                (andThen (forEach (\<lambda>node2. callNode C (Validate node2 True)) recurrentNodes)
                (andThen (\<lambda>s1. case pMBLayout of
                            None \<Rightarrow> (Some InvalidAccess, s1)
                          | Some lay \<Rightarrow>
                              EvaluateLoopFrames C lay (GetNumTimeSteps C (nodes s1) lay)
                                (m_steppingDirection recInfo) recurrentNodes s1)
                (andThen (forEach (\<lambda>node2. callNode C (OnEvaluateEndIteration node2)) recurrentNodes)
                         (\<lambda>s2. (None, setCompletedEvaluate i True s2))))) s))"

text \<open>The whole-batch branch of \<^verbatim>\<open>Evaluate\<close>.\<close>

definition EvaluateWholeBatch :: "('a, 'w, 'i) NodeContract \<Rightarrow> node \<Rightarrow>
    ('a, 'w) ComputationNetwork \<Rightarrow> error option \<times> ('a, 'w) ComputationNetwork" where
  "EvaluateWholeBatch C n =
     andThen (callNode C (UpdateFunctionMBSize n))
    (andThen (whenDo (\<not> IsLeaf C n \<and> \<not> RequiresPreCompute C n) (callNode C (Validate n True)))
    (andThen (callNode C (OnEvaluateBeginIteration n))
    (andThen (\<lambda>s. callNode C (EvaluateThisNode n (AllFrames (GetMBLayout C (nodes s) n))) s)
    (andThen (whenDo (IsNodeReqMultiSeqHandling C n)
                (\<lambda>s. callNode C (MaskMissingValuesColumnsToZero n (AllFrames (GetMBLayout C (nodes s) n))) s))
    (andThen (callNode C (OnEvaluateEndIteration n))
             (callNode C (UpdateEvalTimeStamp n)))))))"

text \<open>The body of the traversal of \<^verbatim>\<open>Evaluate\<close>, for one node of the evaluation order.\<close>

definition EvaluateNode :: "('a, 'w, 'i) NodeContract \<Rightarrow> node \<Rightarrow>
    ('a, 'w) ComputationNetwork \<Rightarrow> error option \<times> ('a, 'w) ComputationNetwork" where
  "EvaluateNode C n s =
     (case FindInRecurrentLoops (m_recurrentInfo s) n of
        Some i \<Rightarrow>
          if IsFuncValueOlderThanInputs C (nodes s)
               (m_recurrentNodesForForward (m_recurrentInfo s ! i)) \<and>
             \<not> m_completedEvaluate (m_recurrentInfo s ! i)
          then EvaluateLoop C i s
          else callNode C (OnEvaluateEndIteration n) s
      | None \<Rightarrow>
          if NodeIsFuncValueOlderThanInputs C (nodes s) n
          then EvaluateWholeBatch C n s
          else callNode C (OnEvaluateEndIteration n) s)"

definition resetCompletedEvaluate :: "('a, 'w) ComputationNetwork \<Rightarrow> ('a, 'w) ComputationNetwork" where
  "resetCompletedEvaluate s =
     s\<lparr>m_recurrentInfo := map (\<lambda>r. r\<lparr>m_completedEvaluate := False\<rparr>) (m_recurrentInfo s)\<rparr>"

definition Evaluate :: "('a, 'w, 'i) NodeContract \<Rightarrow> node \<Rightarrow>
    ('a, 'w) ComputationNetwork \<Rightarrow> error option \<times> ('a, 'w) ComputationNetwork" where
  "Evaluate C rootNode s =
     (if \<not> BuiltAndValidatedSubNetwork rootNode s then (Some NotBuilt, s)
      else forEach (EvaluateNode C) (GetEvalOrder C rootNode) (resetCompletedEvaluate s))"

section \<open>Gradient computation\<close>

text \<open>
  Modelled from the spec: \<^verbatim>\<open>GetGradientCalcOrder\<close> is not defined in this source file.
  It returns the nodes of the evaluation order in reverse order.
\<close>

definition GetGradientCalcOrder :: "('a, 'w, 'i) NodeContract \<Rightarrow> node \<Rightarrow> node list" where
  "GetGradientCalcOrder C rootNode = rev (GetEvalOrder C rootNode)"

definition updateGradientValues :: "node \<Rightarrow> ('a Matrix \<Rightarrow> 'a Matrix) \<Rightarrow>
    ('a, 'w) ComputationNetwork \<Rightarrow> error option \<times> ('a, 'w) ComputationNetwork" where
  "updateGradientValues n f s =
     (None, s\<lparr>nodes := (nodes s)\<lparr>GradientValues :=
        (GradientValues (nodes s))(n := f (GradientValues (nodes s) n))\<rparr>\<rparr>)"

text \<open>
  The two statements of \<^verbatim>\<open>ComputeGradient\<close> that seed the gradient of the root:
  \<^verbatim>\<open>if (bResetToOne) { Resize(1, 1); SetValue(1); }\<close> and
  \<^verbatim>\<open>if (rootGradientInitValue != nullptr) SetValue(*rootGradientInitValue)\<close>.
\<close>

definition seedRootGradient :: "node \<Rightarrow> bool \<Rightarrow> ('a::one) Matrix option \<Rightarrow>
    ('a, 'w) ComputationNetwork \<Rightarrow> error option \<times> ('a, 'w) ComputationNetwork" where
  "seedRootGradient rootNode bResetToOne rootGradientInitValue =
     andThen (whenDo bResetToOne
                (andThen (updateGradientValues rootNode (Resize 1 1))
                         (updateGradientValues rootNode (SetValue 1))))
             (case rootGradientInitValue of
                None \<Rightarrow> (\<lambda>s. (None, s))
              | Some M \<Rightarrow> updateGradientValues rootNode (SetValueMatrix M))"

definition loopGradientFrame :: "('a, 'w, 'i) NodeContract \<Rightarrow> FrameRange \<Rightarrow> node \<Rightarrow>
    ('a, 'w) ComputationNetwork \<Rightarrow> error option \<times> ('a, 'w) ComputationNetwork" where
  "loopGradientFrame C t node2 =
     andThen (\<lambda>s. callNode C (VerifyNumParallelSequences node2
                      (GetNumParallelSequences C (nodes s) (m_pMBLayout s))) s)
    (andThen (whenDo (IsNodeReqMultiSeqHandling C node2)
                (callNode C (MaskMissingGradientColumnsToZero node2 t)))
             (callNode C (ComputeGradientForChildren node2 t)))"

text \<open>
  The frame iteration of the loop branch of \<^verbatim>\<open>ComputeGradient\<close>:
  \<^verbatim>\<open>for (auto t = range.rbegin(); t != range.rend(); t++)\<close> and, inside,
  \<^verbatim>\<open>for (auto nodeIter2 = recurrentNodes.rbegin(); nodeIter2 != recurrentNodes.rend(); ++nodeIter2)\<close>.
\<close>

definition ComputeGradientLoopFrames :: "('a, 'w, 'i) NodeContract \<Rightarrow> MBLayoutPtr \<Rightarrow> nat \<Rightarrow> int \<Rightarrow>
    node list \<Rightarrow> ('a, 'w) ComputationNetwork \<Rightarrow> error option \<times> ('a, 'w) ComputationNetwork" where
  "ComputeGradientLoopFrames C lay T step recurrentNodes =
     forEach (\<lambda>t. forEach (loopGradientFrame C (Frame lay t)) (rev recurrentNodes))
       (FrameRangeIteration_reverse T step)"

text \<open>
  The body of \<^verbatim>\<open>if (!recInfo->m_completedGradient)\<close>, for the loop with index \<open>i\<close>.
\<close>

definition ComputeGradientLoop :: "('a, 'w, 'i) NodeContract \<Rightarrow> nat \<Rightarrow>
    ('a, 'w) ComputationNetwork \<Rightarrow> error option \<times> ('a, 'w) ComputationNetwork" where
  "ComputeGradientLoop C i s =
     (let recInfo = m_recurrentInfo s ! i;
          recurrentNodes = m_recurrentNodesForForward recInfo
      in andThen (forEach (\<lambda>node2. callNode C (OnComputeGradientBeginIteration node2)) recurrentNodes)
        (andThen (\<lambda>s1. case recurrentNodes of
                    [] \<Rightarrow> (Some InvalidAccess, s1)
                  | first # _ \<Rightarrow>
                      (case GetMBLayout C (nodes s1) first of
                         None \<Rightarrow> (Some InvalidAccess, s1)
                       | Some lay \<Rightarrow>
                           ComputeGradientLoopFrames C lay (GetNumTimeSteps C (nodes s1) lay)
                             (m_steppingDirection recInfo) recurrentNodes s1))
        (andThen (forEach (\<lambda>node2. callNode C (OnComputeGradientEndIteration node2)) recurrentNodes)
                 (\<lambda>s2. (None, setCompletedGradient i True s2)))) s)"

text \<open>The \<^verbatim>\<open>else\<close> branch: the whole-batch operation on a node that is in no loop.\<close>

definition ComputeGradientWholeBatch :: "('a, 'w, 'i) NodeContract \<Rightarrow> node \<Rightarrow>
    ('a, 'w) ComputationNetwork \<Rightarrow> error option \<times> ('a, 'w) ComputationNetwork" where
  "ComputeGradientWholeBatch C n =
     andThen (callNode C (OnComputeGradientBeginIteration n))
    (andThen (whenDo (IsNodeReqMultiSeqHandling C n)
                (\<lambda>s. if IsPartOfLoop C (nodes s) n then (Some WholeBatchOnLoopNode, s)
                      else callNode C (MaskMissingGradientColumnsToZero n
                             (AllFrames (GetMBLayout C (nodes s) n))) s))
    (andThen (\<lambda>s. callNode C (ComputeGradientForChildren n (AllFrames (GetMBLayout C (nodes s) n))) s)
             (callNode C (OnComputeGradientEndIteration n))))"

definition ComputeGradientNode :: "('a, 'w, 'i) NodeContract \<Rightarrow> node \<Rightarrow>
    ('a, 'w) ComputationNetwork \<Rightarrow> error option \<times> ('a, 'w) ComputationNetwork" where
  "ComputeGradientNode C n s =
     (case FindInRecurrentLoops (m_recurrentInfo s) n of
        Some i \<Rightarrow>
          if \<not> m_completedGradient (m_recurrentInfo s ! i) then ComputeGradientLoop C i s
          else (None, s)
      | None \<Rightarrow> ComputeGradientWholeBatch C n s)"

text \<open>The traversal of \<^verbatim>\<open>ComputeGradient\<close> in gradient order.\<close>

definition ComputeGradientWalk :: "('a, 'w, 'i) NodeContract \<Rightarrow> node list \<Rightarrow>
    ('a, 'w) ComputationNetwork \<Rightarrow> error option \<times> ('a, 'w) ComputationNetwork" where
  "ComputeGradientWalk C allNodes = forEach (ComputeGradientNode C) allNodes"

definition ComputeGradient :: "('a::one, 'w, 'i) NodeContract \<Rightarrow> node \<Rightarrow> bool \<Rightarrow>
    'a Matrix option \<Rightarrow> bool \<Rightarrow> bool \<Rightarrow>
    ('a, 'w) ComputationNetwork \<Rightarrow> error option \<times> ('a, 'w) ComputationNetwork" where
  "ComputeGradient C rootNode bResetToOne rootGradientInitValue bClearGradient
       resetTimeStampAfterComputation =
     andThen (Evaluate C rootNode)
    (andThen (whenDo bClearGradient
                (callNetwork (ClearGradientForAllNodes rootNode) (clearGradientForAllNodes C rootNode)))
    (andThen (seedRootGradient rootNode bResetToOne rootGradientInitValue)
    (andThen (ComputeGradientWalk C (GetGradientCalcOrder C rootNode))
             (whenDo resetTimeStampAfterComputation (callNode C ResetEvalTimeStamp)))))"

section \<open>Validation\<close>

definition setVisited :: "node \<Rightarrow> bool \<Rightarrow> ('a, 'w) ComputationNetwork \<Rightarrow> ('a, 'w) ComputationNetwork" where
  "setVisited n b s = s\<lparr>nodes := (nodes s)\<lparr>m_visited := (m_visited (nodes s))(n := b)\<rparr>\<rparr>"

definition setNeedsGradient :: "node \<Rightarrow> bool \<Rightarrow> ('a, 'w) ComputationNetwork \<Rightarrow> ('a, 'w) ComputationNetwork" where
  "setNeedsGradient n b s =
     s\<lparr>nodes := (nodes s)\<lparr>m_needsGradient := (m_needsGradient (nodes s))(n := b)\<rparr>\<rparr>"

text \<open>
  \<^verbatim>\<open>for (auto & child : children) node->m_needsGradient |= child->m_needsGradient;\<close>
\<close>

definition propagateNeedsGradient :: "node \<Rightarrow> node list \<Rightarrow> ('a, 'w) ComputationNetwork \<Rightarrow>
    ('a, 'w) ComputationNetwork" where
  "propagateNeedsGradient n children s =
     fold (\<lambda>child s'. setNeedsGradient n
             (m_needsGradient (nodes s') n \<or> m_needsGradient (nodes s') child) s') children s"

text \<open>
  The body of the loop of \<^verbatim>\<open>ValidateNodes\<close> for one node. It returns \<^verbatim>\<open>valid\<close> with
  the error and the state.
\<close>

definition ValidateNode :: "('a, 'w, 'i) NodeContract \<Rightarrow> bool \<Rightarrow> node \<Rightarrow>
    ('a, 'w) ComputationNetwork \<Rightarrow> error option \<times> bool \<times> ('a, 'w) ComputationNetwork" where
  "ValidateNode C isFinalValidationPass n s =
     (let children = GetChildren C n;
          isLeaf = IsLeaf C n;
          hasVisitedChild = list_ex (m_visited (nodes s)) children;
          allChildrenVisited = list_all (m_visited (nodes s)) children
      in if hasVisitedChild \<or> isLeaf then
           (let oldMBLayoutPtr = GetMBLayout C (nodes s) n;
                dim = GetDims C (nodes s) n;
                childDims = map (GetDims C (nodes s)) children;
                imageLayouts = GetImageLayouts C (nodes s) n
            in case callNode C (PrintSelfBeforeValidation n) s of
                 (Some e, s1) \<Rightarrow> (Some e, False, s1)
               | (None, s1) \<Rightarrow>
            (case callNode C (Validate n isFinalValidationPass) s1 of
                 (Some e, s2) \<Rightarrow> (Some e, False, s2)
               | (None, s2) \<Rightarrow>
            (let s3 = setVisited n True s2;
                 needsGradient = m_needsGradient (nodes s3) n;
                 s4 = propagateNeedsGradient n children s3;
                 unchanged = (oldMBLayoutPtr = GetMBLayout C (nodes s4) n \<and>
                              dim = GetDims C (nodes s4) n \<and>
                              childDims = map (GetDims C (nodes s4)) children \<and>
                              imageLayouts = GetImageLayouts C (nodes s4) n \<and>
                              needsGradient = m_needsGradient (nodes s4) n)
             in if isFinalValidationPass \<and> \<not> unchanged then (Some NonStableValidation, False, s4)
                else if isFinalValidationPass \<and> \<not> allChildrenVisited
                     then (Some UnvisitedChildInFinalPass, False, s4)
                else (None, (allChildrenVisited \<and> unchanged) \<or> isLeaf, s4))))
         else (None, False, s))"

text \<open>
  The loop of \<^verbatim>\<open>ValidateNodes\<close> from the count \<open>todo\<close> of the nodes to redo;
  \<^verbatim>\<open>ValidateNodes\<close> starts it at 0. A throw leaves the loop.
\<close>

fun ValidateNodesFrom :: "('a, 'w, 'i) NodeContract \<Rightarrow> node list \<Rightarrow> bool \<Rightarrow> nat \<Rightarrow>
    ('a, 'w) ComputationNetwork \<Rightarrow> error option \<times> nat \<times> ('a, 'w) ComputationNetwork" where
  "ValidateNodesFrom C [] isFinalValidationPass todo s = (None, todo, s)"
| "ValidateNodesFrom C (n # ns) isFinalValidationPass todo s =
     (case ValidateNode C isFinalValidationPass n s of
        (Some e, valid, s') \<Rightarrow> (Some e, todo, s')
      | (None, valid, s') \<Rightarrow>
          ValidateNodesFrom C ns isFinalValidationPass (if valid then todo else Suc todo) s')"

definition ValidateNodes :: "('a, 'w, 'i) NodeContract \<Rightarrow> node list \<Rightarrow> bool \<Rightarrow>
    ('a, 'w) ComputationNetwork \<Rightarrow> error option \<times> nat \<times> ('a, 'w) ComputationNetwork" where
  "ValidateNodes C ns isFinalValidationPass s = ValidateNodesFrom C ns isFinalValidationPass 0 s"

text \<open>
  \<^verbatim>\<open>while (toValidate > 0) { pass++; ValidateNodes(nodes, false, toValidate); }\<close>
  The loop has no bound, so it is a partial function: \<open>None\<close> is a run that never
  leaves the loop. The result carries the number of passes.
\<close>

partial_function (option) validateLoop :: "('a, 'w, 'i) NodeContract \<Rightarrow> node list \<Rightarrow> nat \<Rightarrow> nat \<Rightarrow>
    ('a, 'w) ComputationNetwork \<Rightarrow> (error option \<times> nat \<times> ('a, 'w) ComputationNetwork) option" where
  "validateLoop C ns pass toValidate s =
     (if toValidate > 0 then
        (case ValidateNodes C ns False s of
           (Some e, todo, s') \<Rightarrow> Some (Some e, Suc pass, s')
         | (None, todo, s') \<Rightarrow> validateLoop C ns (Suc pass) todo s')
      else Some (None, pass, s))"

text \<open>The first loop of \<^verbatim>\<open>ValidateSubNetwork\<close>, over the input nodes.\<close>

definition linkInput :: "('a, 'w, 'i) NodeContract \<Rightarrow> node \<Rightarrow>
    ('a, 'w) ComputationNetwork \<Rightarrow> error option \<times> ('a, 'w) ComputationNetwork" where
  "linkInput C n =
     andThen (\<lambda>s. callNode C (LinkToMBLayout n (m_pMBLayout s)) s)
             (\<lambda>s. if LayoutNumCols C (nodes s) (m_pMBLayout s) = 0
                  then callNode C (MBLayoutInit (m_pMBLayout s) 1 (snd (GetDims C (nodes s) n))) s
                  else (None, s))"

definition resetNode :: "('a, 'w, 'i) NodeContract \<Rightarrow> node \<Rightarrow>
    ('a, 'w) ComputationNetwork \<Rightarrow> error option \<times> ('a, 'w) ComputationNetwork" where
  "resetNode C n s =
     (None, setNeedsGradient n (IsParameterUpdateRequired C (nodes (setVisited n False s)) n)
              (setVisited n False s))"

definition checkNonZero :: "('a, 'w, 'i) NodeContract \<Rightarrow> node \<Rightarrow>
    ('a, 'w) ComputationNetwork \<Rightarrow> error option \<times> ('a, 'w) ComputationNetwork" where
  "checkNonZero C n s =
     (if fst (GetDims C (nodes s) n) = 0 \<and>
         (GetMBLayout C (nodes s) n \<noteq> None \<or> snd (GetDims C (nodes s) n) = 0)
      then (Some ZeroDimension, s) else (None, s))"

text \<open>
  \<^verbatim>\<open>ValidateSubNetwork\<close>. The result is \<open>None\<close> when the loop of non-final passes never
  ends; otherwise the error, the number of non-final passes made, and the state.
\<close>

definition ValidateSubNetwork :: "('a, 'w, 'i) NodeContract \<Rightarrow> node \<Rightarrow>
    ('a, 'w) ComputationNetwork \<Rightarrow> (error option \<times> nat \<times> ('a, 'w) ComputationNetwork) option" where
  "ValidateSubNetwork C rootNode s =
     (case forEach (linkInput C) (InputNodes C rootNode) s of
        (Some e, s1) \<Rightarrow> Some (Some e, 0, s1)
      | (None, s1) \<Rightarrow>
     (let ns = GetEvalOrder C rootNode in
      case forEach (resetNode C) ns s1 of
        (Some e, s2) \<Rightarrow> Some (Some e, 0, s2)
      | (None, s2) \<Rightarrow>
     (case validateLoop C ns 0 (length ns) s2 of
        None \<Rightarrow> None
      | Some (Some e, pass, s3) \<Rightarrow> Some (Some e, pass, s3)
      | Some (None, pass, s3) \<Rightarrow>
     (case ValidateNodes C ns True s3 of
        (Some e, toValidate, s4) \<Rightarrow> Some (Some e, pass, s4)
      | (None, toValidate, s4) \<Rightarrow>
          if toValidate \<noteq> 0 then Some (Some WorkLeftAfterFinalPass, pass, s4)
          else (case forEach (checkNonZero C) ns s4 of (r, s5) \<Rightarrow> Some (r, pass, s5))))))"

section \<open>The build cache\<close>

text \<open>
  \<^verbatim>\<open>BuildAndValidateSubNetwork\<close>: \<^verbatim>\<open>m_built.insert(rootNode).second\<close> inserts the root and
  tells whether it was new.
\<close>

definition BuildAndValidateSubNetwork :: "('a, 'w, 'i) NodeContract \<Rightarrow> node \<Rightarrow>
    ('a, 'w) ComputationNetwork \<Rightarrow> (error option \<times> ('a, 'w) ComputationNetwork) option" where
  "BuildAndValidateSubNetwork C rootNode s =
     (let inserted = (rootNode \<notin> m_built s);
          s0 = s\<lparr>m_built := insert rootNode (m_built s)\<rparr>
      in if \<not> inserted then Some (None, s0)
         else (case callNetwork (FormRecurrentLoops rootNode) (formRecurrentLoops C rootNode) s0 of
                 (Some e, s1) \<Rightarrow> Some (Some e, s1)
               | (None, s1) \<Rightarrow>
              (case callNode C (CollectInputAndLearnableParameters rootNode) s1 of
                 (Some e, s2) \<Rightarrow> Some (Some e, s2)
               | (None, s2) \<Rightarrow>
              (case ValidateSubNetwork C rootNode s2 of
                 None \<Rightarrow> None
               | Some (r, pass, s3) \<Rightarrow> Some (r, s3)))))"

section \<open>Auxiliary definitions for the statements and proofs\<close>

text \<open>
  \<open>emits f P F\<close>: a run of \<open>f\<close> leaves \<^verbatim>\<open>m_recurrentInfo\<close> alone and appends calls to
  the log; the appended calls that satisfy \<open>P\<close> are, in order, a prefix of some list of
  \<open>F\<close>, and the whole of it when the run returns normally.
\<close>

definition emits :: "(('a, 'w) ComputationNetwork \<Rightarrow> error option \<times> ('a, 'w) ComputationNetwork) \<Rightarrow>
    (call \<Rightarrow> bool) \<Rightarrow> call list set \<Rightarrow> bool" where
  "emits f P F \<longleftrightarrow>
     (\<forall>s r s'. f s = (r, s') \<longrightarrow>
        m_recurrentInfo s' = m_recurrentInfo s \<and>
        (\<exists>es full. full \<in> F \<and> trace s' = trace s @ es \<and> prefix (filter P es) full \<and>
           (r = None \<longrightarrow> filter P es = full)))"

text \<open>
  The forward events of the log: the calls \<^verbatim>\<open>OnEvaluateBeginIteration\<close> and
  \<^verbatim>\<open>EvaluateThisNode\<close>, with the node they are made on.
\<close>

fun evaluatedNode :: "call \<Rightarrow> node option" where
  "evaluatedNode (EvaluateThisNode n t) = Some n"
| "evaluatedNode (OnEvaluateBeginIteration n) = Some n"
| "evaluatedNode c = None"

definition forwardEvent :: "call \<Rightarrow> bool" where
  "forwardEvent c = (evaluatedNode c \<noteq> None)"

text \<open>
  The forward events of one run of a loop with members \<open>ns\<close> over the frames \<open>frames\<close>
  of the layout \<open>lay\<close>.
\<close>

definition loopEvents :: "node list \<Rightarrow> MBLayoutPtr \<Rightarrow> nat list \<Rightarrow> call list" where
  "loopEvents ns lay frames =
     map OnEvaluateBeginIteration ns @
     concat (map (\<lambda>t. map (\<lambda>n. EvaluateThisNode n (Frame lay t)) ns) frames)"

definition frameEvents :: "node list \<Rightarrow> MBLayoutPtr \<Rightarrow> nat list \<Rightarrow> call list" where
  "frameEvents ns lay frames = concat (map (\<lambda>t. map (\<lambda>n. EvaluateThisNode n (Frame lay t)) ns) frames)"

text \<open>
  The loops as \<^verbatim>\<open>FormRecurrentLoops\<close> leaves them: no node is listed twice among the members
  of the loops, and the forward list of a loop lists every member once.
\<close>

definition loopsWellFormed :: "RecurrentInfo list \<Rightarrow> bool" where
  "loopsWellFormed ris \<longleftrightarrow>
     distinct (concat (map m_recurrentNodes ris)) \<and>
     (\<forall>r \<in> set ris. distinct (m_recurrentNodesForForward r) \<and>
        set (m_recurrentNodesForForward r) = set (m_recurrentNodes r))"

text \<open>Two values of \<^verbatim>\<open>m_recurrentInfo\<close> that differ in the flags only.\<close>

definition sameLoops :: "RecurrentInfo list \<Rightarrow> RecurrentInfo list \<Rightarrow> bool" where
  "sameLoops ris ris' \<longleftrightarrow>
     map m_recurrentNodes ris = map m_recurrentNodes ris' \<and>
     map m_recurrentNodesForForward ris = map m_recurrentNodesForForward ris'"

text \<open>
  The invariant of the traversal of \<^verbatim>\<open>Evaluate\<close>, where \<open>seen\<close> are the nodes of the
  evaluation order that have had their turn: the forward events of the log are distinct;
  each is made on a node of no loop that has had its turn or on a member of a loop that is
  completed; whole-batch evaluations are made on nodes of no loop, single-frame evaluations
  on members of loops. \<open>walkPost\<close> is what remains of it when the traversal ends,
  normally or not.
\<close>

definition walkInv :: "node set \<Rightarrow> ('a, 'w) ComputationNetwork \<Rightarrow> bool" where
  "walkInv seen s \<longleftrightarrow>
     loopsWellFormed (m_recurrentInfo s) \<and>
     distinct (filter forwardEvent (trace s)) \<and>
     (\<forall>c \<in> set (trace s). \<forall>n. evaluatedNode c = Some n \<longrightarrow>
        FindInRecurrentLoops (m_recurrentInfo s) n = None \<longrightarrow> n \<in> seen) \<and>
     (\<forall>c \<in> set (trace s). \<forall>n i. evaluatedNode c = Some n \<longrightarrow>
        FindInRecurrentLoops (m_recurrentInfo s) n = Some i \<longrightarrow>
        m_completedEvaluate (m_recurrentInfo s ! i)) \<and>
     (\<forall>n l. EvaluateThisNode n (AllFrames l) \<in> set (trace s) \<longrightarrow>
        FindInRecurrentLoops (m_recurrentInfo s) n = None) \<and>
     (\<forall>n lay t. EvaluateThisNode n (Frame lay t) \<in> set (trace s) \<longrightarrow>
        FindInRecurrentLoops (m_recurrentInfo s) n \<noteq> None)"

definition walkPost :: "error option \<Rightarrow> ('a, 'w) ComputationNetwork \<Rightarrow> bool" where
  "walkPost r s \<longleftrightarrow>
     distinct (filter forwardEvent (trace s)) \<and>
     (\<forall>n l. EvaluateThisNode n (AllFrames l) \<in> set (trace s) \<longrightarrow>
        FindInRecurrentLoops (m_recurrentInfo s) n = None) \<and>
     (\<forall>n lay t. EvaluateThisNode n (Frame lay t) \<in> set (trace s) \<longrightarrow>
        (\<exists>i. FindInRecurrentLoops (m_recurrentInfo s) n = Some i \<and>
             (r = None \<longrightarrow> m_completedEvaluate (m_recurrentInfo s ! i))))"

text \<open>
  An example network: an input node 5, a \<^verbatim>\<open>Plus\<close> node 3 with the children 5 and 4, and a
  \<^verbatim>\<open>PastValue\<close> node 4 with the child 3, which closes the loop of 3 and 4. Every node
  always reports a stale function value, no external call has an effect, the layout 7 has
  two time steps.
\<close>

definition exContract :: "(int, nat, unit) NodeContract" where
  "exContract =
     \<lparr>perform = (\<lambda>c st. (None, st)),
      GetChildren = (\<lambda>n. if n = 3 then [5, 4] else if n = 4 then [3] else []),
      IsLeaf = (\<lambda>n. n = 5),
      OperationName = (\<lambda>n. if n = 4 then ''PastValue'' else if n = 3 then ''Plus'' else ''InputValue''),
      RequiresPreCompute = (\<lambda>n. False),
      IsNodeReqMultiSeqHandling = (\<lambda>n. False),
      GetEvalOrder = (\<lambda>r. [5, 4, 3]),
      InputNodes = (\<lambda>r. [5]),
      IsPartOfLoop = (\<lambda>st n. n = 3 \<or> n = 4),
      IsParameterUpdateRequired = (\<lambda>st n. False),
      NodeIsFuncValueOlderThanInputs = (\<lambda>st n. True),
      GetMBLayout = (\<lambda>st n. Some 7),
      GetDims = (\<lambda>st n. (1, 3)),
      GetImageLayouts = (\<lambda>st n. ()),
      GetNumTimeSteps = (\<lambda>st l. 2),
      GetNumParallelSequences = (\<lambda>st l. 1),
      LayoutNumCols = (\<lambda>st l. 3),
      formRecurrentLoops = (\<lambda>r x. (None, x)),
      clearGradientForAllNodes = (\<lambda>r x. (None, x))\<rparr>"

definition exLoop :: RecurrentInfo where
  "exLoop = \<lparr>m_recurrentNodes = [3, 4], m_recurrentNodesForForward = [4, 3],
      m_steppingDirection = 1, m_completedEvaluate = False, m_completedGradient = False\<rparr>"

definition exStore :: "(int, nat) NodeStore" where
  "exStore = \<lparr>m_visited = (\<lambda>n. False), m_needsGradient = (\<lambda>n. False),
      GradientValues = (\<lambda>n. \<lparr>numRows = 0, numCols = 0, elems = (\<lambda>i j. 0)\<rparr>), nodeState = 0\<rparr>"

definition exNetwork :: "(int, nat) ComputationNetwork" where
  "exNetwork = \<lparr>m_recurrentInfo = [exLoop], m_built = {3}, m_pMBLayout = 7,
      nodes = exStore, trace = []\<rparr>"

text \<open>
  The (node, frame range) of the \<^verbatim>\<open>EvaluateThisNode\<close> calls and of the
  \<^verbatim>\<open>ComputeGradientForChildren\<close> calls of a log, in order; \<open>callsMade s s'\<close> are the calls
  appended to the log between the states \<open>s\<close> and \<open>s'\<close>.
\<close>

fun evaluationOf :: "call \<Rightarrow> (node \<times> FrameRange) option" where
  "evaluationOf (EvaluateThisNode n t) = Some (n, t)"
| "evaluationOf c = None"

fun gradientOf :: "call \<Rightarrow> (node \<times> FrameRange) option" where
  "gradientOf (ComputeGradientForChildren n t) = Some (n, t)"
| "gradientOf c = None"

definition evaluations :: "call list \<Rightarrow> (node \<times> FrameRange) list" where
  "evaluations cs = List.map_filter evaluationOf cs"

definition gradients :: "call list \<Rightarrow> (node \<times> FrameRange) list" where
  "gradients cs = List.map_filter gradientOf cs"

definition callsMade :: "('a, 'w) ComputationNetwork \<Rightarrow> ('a, 'w) ComputationNetwork \<Rightarrow> call list" where
  "callsMade s s' = drop (length (trace s)) (trace s')"

definition gradientEvent :: "call \<Rightarrow> bool" where
  "gradientEvent c = (gradientOf c \<noteq> None)"

definition isEvaluation :: "call \<Rightarrow> bool" where
  "isEvaluation c = (evaluationOf c \<noteq> None)"

text \<open>
  The calls of the whole-batch gradient branch on a node: begin, the masking if the node
  requests multi-sequence handling, the gradient for the children, end.
\<close>

definition wholeBatchGradient :: "node \<Rightarrow> call list \<Rightarrow> bool" where
  "wholeBatchGradient n cs \<longleftrightarrow>
     (\<exists>l mask. cs = OnComputeGradientBeginIteration n # mask @
          [ComputeGradientForChildren n (AllFrames l), OnComputeGradientEndIteration n] \<and>
        (mask = [] \<or> (\<exists>l'. mask = [MaskMissingGradientColumnsToZero n (AllFrames l')])))"

definition noEvent :: "call \<Rightarrow> bool" where
  "noEvent c = False"

text \<open>
  For the final pass of \<^verbatim>\<open>ValidateNodes\<close>: the state right after the \<^verbatim>\<open>Validate\<close> call of a
  node; whether the node is validated in its turn (\<^verbatim>\<open>hasVisitedChild || isLeaf\<close>); and the
  comparison that the source calls \<^verbatim>\<open>unchanged\<close>, between the state \<open>s\<close> before the
  \<^verbatim>\<open>Validate\<close> call, the state \<open>sv\<close> after it, where \<^verbatim>\<open>m_needsGradient\<close> is read, and
  the state \<open>s'\<close> at the end of the turn.
\<close>

definition afterValidate :: "('a, 'w, 'i) NodeContract \<Rightarrow> bool \<Rightarrow> node \<Rightarrow>
    ('a, 'w) ComputationNetwork \<Rightarrow> ('a, 'w) ComputationNetwork" where
  "afterValidate C isFinalValidationPass n s =
     snd (callNode C (Validate n isFinalValidationPass) (snd (callNode C (PrintSelfBeforeValidation n) s)))"

definition validated :: "('a, 'w, 'i) NodeContract \<Rightarrow> node \<Rightarrow> ('a, 'w) ComputationNetwork \<Rightarrow> bool" where
  "validated C n s \<longleftrightarrow> list_ex (m_visited (nodes s)) (GetChildren C n) \<or> IsLeaf C n"

definition stableTuple :: "('a, 'w, 'i) NodeContract \<Rightarrow> node \<Rightarrow> ('a, 'w) ComputationNetwork \<Rightarrow>
    ('a, 'w) ComputationNetwork \<Rightarrow> ('a, 'w) ComputationNetwork \<Rightarrow> bool" where
  "stableTuple C n s sv s' \<longleftrightarrow>
     GetMBLayout C (nodes s) n = GetMBLayout C (nodes s') n \<and>
     GetDims C (nodes s) n = GetDims C (nodes s') n \<and>
     map (GetDims C (nodes s)) (GetChildren C n) = map (GetDims C (nodes s')) (GetChildren C n) \<and>
     GetImageLayouts C (nodes s) n = GetImageLayouts C (nodes s') n \<and>
     m_needsGradient (nodes sv) n = m_needsGradient (nodes s') n"

text \<open>The loop of non-final passes with a bound \<open>k\<close> on the number of passes.\<close>

fun validatePasses :: "('a, 'w, 'i) NodeContract \<Rightarrow> node list \<Rightarrow> nat \<Rightarrow> nat \<Rightarrow> nat \<Rightarrow>
    ('a, 'w) ComputationNetwork \<Rightarrow> (error option \<times> nat \<times> ('a, 'w) ComputationNetwork) option" where
  "validatePasses C ns 0 pass toValidate s =
     (if toValidate > 0 then None else Some (None, pass, s))"
| "validatePasses C ns (Suc k) pass toValidate s =
     (if toValidate > 0 then
        (case ValidateNodes C ns False s of
           (Some e, todo, s') \<Rightarrow> Some (Some e, Suc pass, s')
         | (None, todo, s') \<Rightarrow> validatePasses C ns k (Suc pass) todo s')
      else Some (None, pass, s))"

text \<open>
  No external call writes \<^verbatim>\<open>m_visited\<close>; and every node visited in \<open>s\<close> is visited in
  \<open>s'\<close>.
\<close>

definition keepsVisited :: "('a, 'w, 'i) NodeContract \<Rightarrow> bool" where
  "keepsVisited C \<longleftrightarrow> (\<forall>c st. m_visited (snd (perform C c st)) = m_visited st)"

definition visitedGrows :: "('a, 'w) ComputationNetwork \<Rightarrow> ('a, 'w) ComputationNetwork \<Rightarrow> bool" where
  "visitedGrows s s' \<longleftrightarrow> (\<forall>m. m_visited (nodes s) m \<longrightarrow> m_visited (nodes s') m)"

text \<open>
  Variants of the example: a network whose \<^verbatim>\<open>Validate\<close> increases the number of rows of
  every node at each call; one whose \<^verbatim>\<open>Validate\<close> sets \<^verbatim>\<open>m_needsGradient\<close> of the node;
  and (\<open>dimContract\<close> below) one whose nodes all have the dimensions \<open>d\<close>.
\<close>

definition growingContract :: "(int, nat, unit) NodeContract" where
  "growingContract =
     exContract\<lparr>perform := (\<lambda>c st. case c of
                     Validate n b \<Rightarrow> (None, st\<lparr>nodeState := Suc (nodeState st)\<rparr>)
                   | _ \<Rightarrow> (None, st)),
                 GetDims := (\<lambda>st n. (Suc (nodeState st), 3))\<rparr>"

definition flagContract :: "(int, nat, unit) NodeContract" where
  "flagContract =
     exContract\<lparr>perform := (\<lambda>c st. case c of
                     Validate n b \<Rightarrow> (None, st\<lparr>m_needsGradient := (m_needsGradient st)(n := True)\<rparr>)
                   | _ \<Rightarrow> (None, st))\<rparr>"

text \<open>The state of the example network in which every node has been visited.\<close>

definition exVisited :: "(int, nat) ComputationNetwork" where
  "exVisited = exNetwork\<lparr>nodes := exStore\<lparr>m_visited := (\<lambda>n. True)\<rparr>\<rparr>"

definition dimContract :: "nat \<times> nat \<Rightarrow> (int, nat, unit) NodeContract" where
  "dimContract d = exContract\<lparr>GetDims := (\<lambda>st n. d)\<rparr>"

text \<open>
  \<open>loopRun C recInfo seg\<close>: the calls \<open>seg\<close> are those of one complete run of the loop
  branch of \<^verbatim>\<open>Evaluate\<close> on the loop \<open>recInfo\<close>. Their forward events are
  \<^verbatim>\<open>OnEvaluateBeginIteration\<close> on each member, in forward order, and then, for each frame
  of \<^verbatim>\<open>FrameRangeIteration\<close> over the time steps of the layout of the first member,
  \<^verbatim>\<open>EvaluateThisNode\<close> on each member at that frame.
\<close>

definition loopRun :: "('a, 'w, 'i) NodeContract \<Rightarrow> RecurrentInfo \<Rightarrow> call list \<Rightarrow> bool" where
  "loopRun C recInfo seg \<longleftrightarrow>
     (\<exists>lay st st'. GetMBLayout C st (hd (m_recurrentNodesForForward recInfo)) = Some lay \<and>
        filter forwardEvent seg =
          loopEvents (m_recurrentNodesForForward recInfo) lay
            (FrameRangeIteration (GetNumTimeSteps C st' lay) (m_steppingDirection recInfo)))"

text \<open>The loops with every \<^verbatim>\<open>m_completedEvaluate\<close> cleared.\<close>

definition clearedFlags :: "RecurrentInfo list \<Rightarrow> RecurrentInfo list" where
  "clearedFlags ris = map (\<lambda>r. r\<lparr>m_completedEvaluate := False\<rparr>) ris"

text \<open>
  \<open>walked C ns r es ris ris'\<close>: what a traversal of the nodes \<open>ns\<close> that made the calls
  \<open>es\<close> and returned \<open>r\<close> did to the loops: it changed no more than the flags
  \<^verbatim>\<open>m_completedEvaluate\<close>; it cleared no flag; each flag it set is that of a loop it
  ran to its end; and, when it returned normally, a loop with a node in \<open>ns\<close> that is
  older than its inputs in every state is completed.
\<close>

definition walked :: "('a, 'w, 'i) NodeContract \<Rightarrow> node list \<Rightarrow> error option \<Rightarrow> call list \<Rightarrow>
    RecurrentInfo list \<Rightarrow> RecurrentInfo list \<Rightarrow> bool" where
  "walked C ns r es ris ris' \<longleftrightarrow>
     clearedFlags ris' = clearedFlags ris \<and>
     (\<forall>j<length ris. m_completedEvaluate (ris ! j) \<longrightarrow> m_completedEvaluate (ris' ! j)) \<and>
     (\<forall>j<length ris. m_completedEvaluate (ris' ! j) \<longrightarrow> \<not> m_completedEvaluate (ris ! j) \<longrightarrow>
        (\<exists>pre seg post. es = pre @ seg @ post \<and> loopRun C (ris ! j) seg)) \<and>
     (r = None \<longrightarrow> (\<forall>n\<in>set ns. \<forall>i. FindInRecurrentLoops ris n = Some i \<longrightarrow>
        (\<forall>st. IsFuncValueOlderThanInputs C st (m_recurrentNodesForForward (ris ! i))) \<longrightarrow>
        m_completedEvaluate (ris' ! i)))"

text \<open>
  The example network as a previous \<^verbatim>\<open>Evaluate\<close> leaves it: the flag
  \<^verbatim>\<open>m_completedEvaluate\<close> of its loop is set.
\<close>

definition exEvaluated :: "(int, nat) ComputationNetwork" where
  "exEvaluated = exNetwork\<lparr>m_recurrentInfo := [exLoop\<lparr>m_completedEvaluate := True\<rparr>]\<rparr>"

text \<open>
  The calls of the backward pass on the nodes: \<^verbatim>\<open>OnComputeGradientBeginIteration\<close>,
  \<^verbatim>\<open>ComputeGradientForChildren\<close> and \<^verbatim>\<open>OnComputeGradientEndIteration\<close>.
\<close>

fun backwardCall :: "call \<Rightarrow> bool" where
  "backwardCall (OnComputeGradientBeginIteration n) = True"
| "backwardCall (ComputeGradientForChildren n t) = True"
| "backwardCall (OnComputeGradientEndIteration n) = True"
| "backwardCall c = False"

text \<open>
  \<open>loopBackwardRun C recInfo seg\<close>: the calls \<open>seg\<close> are those of one complete backward
  pass of the loop \<open>recInfo\<close>. Their backward calls are \<^verbatim>\<open>OnComputeGradientBeginIteration\<close>
  on each member; then, for each frame of the reversed frame iteration over the time steps
  of the layout of the first member, \<^verbatim>\<open>ComputeGradientForChildren\<close> at that frame on each
  member, in the reverse of the forward order; then \<^verbatim>\<open>OnComputeGradientEndIteration\<close> on
  each member.
\<close>

definition loopBackwardRun :: "('a, 'w, 'i) NodeContract \<Rightarrow> RecurrentInfo \<Rightarrow> call list \<Rightarrow> bool" where
  "loopBackwardRun C recInfo seg \<longleftrightarrow>
     (\<exists>lay st st'. GetMBLayout C st (hd (m_recurrentNodesForForward recInfo)) = Some lay \<and>
        filter backwardCall seg =
          map OnComputeGradientBeginIteration (m_recurrentNodesForForward recInfo) @
          concat (map (\<lambda>t. map (\<lambda>n. ComputeGradientForChildren n (Frame lay t))
                             (rev (m_recurrentNodesForForward recInfo)))
                   (FrameRangeIteration_reverse (GetNumTimeSteps C st' lay)
                      (m_steppingDirection recInfo))) @
          map OnComputeGradientEndIteration (m_recurrentNodesForForward recInfo))"

text \<open>The loops with every \<^verbatim>\<open>m_completedGradient\<close> cleared.\<close>

definition clearedGradientFlags :: "RecurrentInfo list \<Rightarrow> RecurrentInfo list" where
  "clearedGradientFlags ris = map (\<lambda>r. r\<lparr>m_completedGradient := False\<rparr>) ris"

text \<open>
  \<open>walkedBack C ns r es ris ris'\<close>: what a traversal of \<^verbatim>\<open>ComputeGradient\<close> over the
  nodes \<open>ns\<close> that made the calls \<open>es\<close> and returned \<open>r\<close> did to the loops: it changed no
  more than the flags \<^verbatim>\<open>m_completedGradient\<close>; it cleared no flag; each flag it set is
  that of a loop whose backward pass it ran to its end; and, when it returned normally,
  every loop with a node in \<open>ns\<close> is completed.
\<close>

definition walkedBack :: "('a, 'w, 'i) NodeContract \<Rightarrow> node list \<Rightarrow> error option \<Rightarrow> call list \<Rightarrow>
    RecurrentInfo list \<Rightarrow> RecurrentInfo list \<Rightarrow> bool" where
  "walkedBack C ns r es ris ris' \<longleftrightarrow>
     clearedGradientFlags ris' = clearedGradientFlags ris \<and>
     (\<forall>j<length ris. m_completedGradient (ris ! j) \<longrightarrow> m_completedGradient (ris' ! j)) \<and>
     (\<forall>j<length ris. m_completedGradient (ris' ! j) \<longrightarrow> \<not> m_completedGradient (ris ! j) \<longrightarrow>
        (\<exists>pre seg post. es = pre @ seg @ post \<and> loopBackwardRun C (ris ! j) seg)) \<and>
     (r = None \<longrightarrow> (\<forall>n\<in>set ns. \<forall>i. FindInRecurrentLoops ris n = Some i \<longrightarrow>
        m_completedGradient (ris' ! i)))"

text \<open>
  \<open>reachesFinalPass C rootNode s pass s3\<close>: \<^verbatim>\<open>ValidateSubNetwork(rootNode)\<close>, started in
  \<open>s\<close>, links the inputs, resets the nodes and leaves the loop of non-final passes
  after \<open>pass\<close> passes, in the state \<open>s3\<close>, with no throw: \<open>s3\<close> is the state in which
  it starts the final pass.
\<close>

definition reachesFinalPass :: "('a, 'w, 'i) NodeContract \<Rightarrow> node \<Rightarrow> ('a, 'w) ComputationNetwork \<Rightarrow>
    nat \<Rightarrow> ('a, 'w) ComputationNetwork \<Rightarrow> bool" where
  "reachesFinalPass C rootNode s pass s3 \<longleftrightarrow>
     (\<exists>s1 s2. forEach (linkInput C) (InputNodes C rootNode) s = (None, s1) \<and>
        forEach (resetNode C) (GetEvalOrder C rootNode) s1 = (None, s2) \<and>
        validateLoop C (GetEvalOrder C rootNode) 0 (length (GetEvalOrder C rootNode)) s2 =
          Some (None, pass, s3))"

text \<open>
  A variant of the example whose \<^verbatim>\<open>Validate(true)\<close> on the input node 5 clears
  \<^verbatim>\<open>m_visited\<close> of the node 3, the only child of the node 4.
\<close>

definition forgetContract :: "(int, nat, unit) NodeContract" where
  "forgetContract =
     exContract\<lparr>perform := (\<lambda>c st. if c = Validate 5 True
                     then (None, st\<lparr>m_visited := (m_visited st)(3 := False)\<rparr>)
                     else (None, st))\<rparr>"

section \<open>Properties\<close>

text \<open>
  C8. \<^verbatim>\<open>IsFuncValueOlderThanInputs(nodes)\<close> is true exactly when some node of the list
  reports that its function value is older than its inputs and is neither a
  \<^verbatim>\<open>PastValue\<close> nor a \<^verbatim>\<open>FutureValue\<close> node.
\<close>

theorem IsFuncValueOlderThanInputs_iff:
  "IsFuncValueOlderThanInputs C st ns \<longleftrightarrow>
     (\<exists>n \<in> set ns. NodeIsFuncValueOlderThanInputs C st n \<and>
        OperationName C n \<noteq> ''PastValue'' \<and> OperationName C n \<noteq> ''FutureValue'')"
  by (induction ns)
     (auto simp: OperationNameOf_PastValueNode_def OperationNameOf_FutureValueNode_def)

lemma emitsI:
  assumes "\<And>s r s'. f s = (r, s') \<Longrightarrow> m_recurrentInfo s' = m_recurrentInfo s \<and>
        (\<exists>es full. full \<in> F \<and> trace s' = trace s @ es \<and> prefix (filter P es) full \<and>
           (r = None \<longrightarrow> filter P es = full))"
  shows "emits f P F"
  using assms unfolding emits_def by blast

lemma emitsD:
  assumes "emits f P F" "f s = (r, s')"
  shows "m_recurrentInfo s' = m_recurrentInfo s"
    and "\<exists>es full. full \<in> F \<and> trace s' = trace s @ es \<and> prefix (filter P es) full \<and>
           (r = None \<longrightarrow> filter P es = full)"
  using assms unfolding emits_def by blast+

lemma emitsE:
  assumes "emits f P F" "f s = (r, s')"
  obtains es full where "full \<in> F" "trace s' = trace s @ es" "prefix (filter P es) full"
    "r = None \<longrightarrow> filter P es = full" "m_recurrentInfo s' = m_recurrentInfo s"
  using assms unfolding emits_def by blast

lemma emits_callNode: "emits (callNode C c) P {filter P [c]}"
  unfolding emits_def callNode_def by (auto split: prod.splits)

lemma emits_skip: "emits (\<lambda>s. (None, s)) P {[]}"
  unfolding emits_def by auto

lemma emits_weaken: "emits f P A \<Longrightarrow> A \<subseteq> B \<Longrightarrow> emits f P B"
  unfolding emits_def by blast

lemma emits_andThen:
  assumes f: "emits f P A" and g: "emits g P B"
  shows "emits (andThen f g) P {a @ b | a b. a \<in> A \<and> b \<in> B}"
proof (rule emitsI)
  fix s r s'
  assume run: "andThen f g s = (r, s')"
  obtain r1 s1 where f1: "f s = (r1, s1)" by (cases "f s")
  from emitsD[OF f f1] obtain e1 a where
    ri1: "m_recurrentInfo s1 = m_recurrentInfo s" and a: "a \<in> A" and t1: "trace s1 = trace s @ e1"
    and p1: "prefix (filter P e1) a" and c1: "r1 = None \<longrightarrow> filter P e1 = a" by blast
  show "m_recurrentInfo s' = m_recurrentInfo s \<and>
        (\<exists>es full. full \<in> {a @ b | a b. a \<in> A \<and> b \<in> B} \<and> trace s' = trace s @ es \<and>
           prefix (filter P es) full \<and> (r = None \<longrightarrow> filter P es = full))"
  proof (cases r1)
    case None
    with run f1 have g1: "g s1 = (r, s')" by (simp add: andThen_def)
    from emitsD[OF g g1] obtain e2 b where
      ri2: "m_recurrentInfo s' = m_recurrentInfo s1" and b: "b \<in> B" and t2: "trace s' = trace s1 @ e2"
      and p2: "prefix (filter P e2) b" and c2: "r = None \<longrightarrow> filter P e2 = b" by blast
    from None c1 have eq: "filter P e1 = a" by simp
    have "prefix (filter P (e1 @ e2)) (a @ b)" using eq p2 by simp
    moreover have "r = None \<longrightarrow> filter P (e1 @ e2) = a @ b" using eq c2 by simp
    moreover have "trace s' = trace s @ (e1 @ e2)" using t1 t2 by simp
    ultimately show ?thesis using a b ri1 ri2
      by (intro conjI exI[of _ "e1 @ e2"] exI[of _ "a @ b"]) auto
  next
    case (Some e)
    with run f1 have rs: "r = Some e" "s' = s1" by (simp_all add: andThen_def)
    obtain b where b: "b \<in> B" using emitsD(2)[OF g, of s1 "fst (g s1)" "snd (g s1)"] by auto
    have "prefix (filter P e1) (a @ b)" using p1 by (simp add: prefix_prefix)
    then show ?thesis using a b ri1 t1 rs
      by (intro conjI exI[of _ "e1"] exI[of _ "a @ b"]) auto
  qed
qed

lemma emits_whenDo: "emits f P A \<Longrightarrow> emits (whenDo b f) P (if b then A else {[]})"
  unfolding emits_def whenDo_def by auto

lemma emits_dep: "(\<And>x. emits (g x) P F) \<Longrightarrow> emits (\<lambda>s. g (h s) s) P F"
  unfolding emits_def by blast

lemma emits_forEach:
  assumes "\<And>x. x \<in> set xs \<Longrightarrow> emits (f x) P {g x}"
  shows "emits (forEach f xs) P {concat (map g xs)}"
  using assms
proof (induction xs)
  case Nil
  show ?case using emits_skip by (simp add: emits_def)
next
  case (Cons x xs)
  have 1: "emits (f x) P {g x}" using Cons.prems by simp
  have 2: "emits (forEach f xs) P {concat (map g xs)}" using Cons by simp
  have eq: "forEach f (x # xs) = andThen (f x) (forEach f xs)"
    by (rule ext) (simp add: andThen_def)
  show ?case unfolding eq using emits_andThen[OF 1 2] by simp
qed

lemma andThen_assoc: "andThen (andThen f g) h = andThen f (andThen g h)"
  by (rule ext) (simp add: andThen_def split: prod.splits option.splits)

lemma emits_callNode_yes: "P c \<Longrightarrow> emits (callNode C c) P {[c]}"
  using emits_callNode[of C c P] by simp

lemma emits_callNode_no: "\<not> P c \<Longrightarrow> emits (callNode C c) P {[]}"
  using emits_callNode[of C c P] by simp

lemma emits_whenDo_silent: "emits f P {[]} \<Longrightarrow> emits (whenDo b f) P {[]}"
  using emits_whenDo[of f P "{[]}" b] by simp

lemma emits_loopBegin: "emits (loopBegin C p n) forwardEvent {[OnEvaluateBeginIteration n]}"
proof -
  have a: "emits (andThen (callNode C (UpdateFunctionMBSize n)) (callNode C (OnEvaluateBeginIteration n)))
      forwardEvent {[OnEvaluateBeginIteration n]}"
    using emits_andThen[OF emits_callNode_no[of forwardEvent "UpdateFunctionMBSize n" C]
        emits_callNode_yes[of forwardEvent "OnEvaluateBeginIteration n" C]]
    by (simp add: forwardEvent_def)
  show ?thesis
    unfolding emits_def loopBegin_def
    using a[unfolded emits_def] by auto
qed

lemma emits_loopEvaluateFrame:
  "emits (loopEvaluateFrame C t n) forwardEvent {[EvaluateThisNode n t]}"
proof -
  have 1: "emits (whenDo (IsNodeReqMultiSeqHandling C n) (callNode C (MaskMissingValuesColumnsToZero n t)))
     forwardEvent {[]}"
    by (rule emits_whenDo_silent, rule emits_callNode_no) (simp add: forwardEvent_def)
  have 2: "emits (callNode C (UpdateEvalTimeStamp n)) forwardEvent {[]}"
    by (rule emits_callNode_no) (simp add: forwardEvent_def)
  have 3: "emits (callNode C (EvaluateThisNode n t)) forwardEvent {[EvaluateThisNode n t]}"
    by (rule emits_callNode_yes) (simp add: forwardEvent_def)
  show ?thesis
    unfolding loopEvaluateFrame_def
    using emits_andThen[OF 3 emits_andThen[OF 1 2]] by simp
qed

lemma emits_silent_forEach:
  assumes "\<And>x. forwardEvent (c x) = False"
  shows "emits (forEach (\<lambda>x. callNode C (c x)) xs) forwardEvent {[]}"
proof -
  have "emits (forEach (\<lambda>x. callNode C (c x)) xs) forwardEvent {concat (map (\<lambda>x. []) xs)}"
    by (rule emits_forEach, rule emits_callNode_no) (simp add: assms)
  moreover have "concat (map (\<lambda>x. []) xs) = ([] :: call list)" by (induction xs) simp_all
  ultimately show ?thesis by simp
qed

lemma emits_frames_list:
  "emits (forEach (\<lambda>t. forEach (loopEvaluateFrame C (Frame lay t)) ns) frames) forwardEvent
     {frameEvents ns lay frames}"
proof -
  have inner: "\<And>t. emits (forEach (loopEvaluateFrame C (Frame lay t)) ns) forwardEvent
      {map (\<lambda>n. EvaluateThisNode n (Frame lay t)) ns}"
  proof -
    fix t
    have "emits (forEach (loopEvaluateFrame C (Frame lay t)) ns) forwardEvent
      {concat (map (\<lambda>n. [EvaluateThisNode n (Frame lay t)]) ns)}"
      by (rule emits_forEach) (rule emits_loopEvaluateFrame)
    then show "emits (forEach (loopEvaluateFrame C (Frame lay t)) ns) forwardEvent
      {map (\<lambda>n. EvaluateThisNode n (Frame lay t)) ns}"
      by (simp add: concat_map_singleton)
  qed
  show ?thesis
    unfolding frameEvents_def
    by (rule emits_forEach[where g = "\<lambda>t. map (\<lambda>n. EvaluateThisNode n (Frame lay t)) ns"])
       (rule inner)
qed

lemma emits_frames:
  "emits (EvaluateLoopFrames C lay T dir ns) forwardEvent {frameEvents ns lay (FrameRangeIteration T dir)}"
  unfolding EvaluateLoopFrames_def by (rule emits_frames_list)

lemma EvaluateLoop_split:
  "EvaluateLoop C i s =
     (case m_recurrentNodesForForward (m_recurrentInfo s ! i) of
        [] \<Rightarrow> (Some InvalidAccess, s)
      | first # rest \<Rightarrow>
          andThen
            (andThen (forEach (loopBegin C (GetMBLayout C (nodes s) first))
                        (m_recurrentNodesForForward (m_recurrentInfo s ! i)))
            (andThen (forEach (\<lambda>node2. callNode C (Validate node2 True))
                        (m_recurrentNodesForForward (m_recurrentInfo s ! i)))
            (andThen (\<lambda>s1. case GetMBLayout C (nodes s) first of
                        None \<Rightarrow> (Some InvalidAccess, s1)
                      | Some lay \<Rightarrow>
                          EvaluateLoopFrames C lay (GetNumTimeSteps C (nodes s1) lay)
                            (m_steppingDirection (m_recurrentInfo s ! i))
                            (m_recurrentNodesForForward (m_recurrentInfo s ! i)) s1)
                     (forEach (\<lambda>node2. callNode C (OnEvaluateEndIteration node2))
                        (m_recurrentNodesForForward (m_recurrentInfo s ! i))))))
            (\<lambda>s2. (None, setCompletedEvaluate i True s2)) s)"
  by (simp add: EvaluateLoop_def Let_def andThen_assoc split: list.splits)

lemma emits_loopBody:
  "emits
     (andThen (forEach (loopBegin C p) ns)
     (andThen (forEach (\<lambda>node2. callNode C (Validate node2 True)) ns)
     (andThen (\<lambda>s1. case p of
                 None \<Rightarrow> (Some InvalidAccess, s1)
               | Some lay \<Rightarrow>
                   EvaluateLoopFrames C lay (GetNumTimeSteps C (nodes s1) lay) dir ns s1)
              (forEach (\<lambda>node2. callNode C (OnEvaluateEndIteration node2)) ns))))
     forwardEvent
     {loopEvents ns lay (FrameRangeIteration T dir) | lay T. True}"
proof -
  let ?FR = "{frameEvents ns lay (FrameRangeIteration T dir) | lay T. True}"
  have A: "emits (forEach (loopBegin C p) ns) forwardEvent {map OnEvaluateBeginIteration ns}"
  proof -
    have "emits (forEach (loopBegin C p) ns) forwardEvent
        {concat (map (\<lambda>n. [OnEvaluateBeginIteration n]) ns)}"
      by (rule emits_forEach) (rule emits_loopBegin)
    then show ?thesis by (simp add: concat_map_singleton)
  qed
  have B: "emits (forEach (\<lambda>node2. callNode C (Validate node2 True)) ns) forwardEvent {[]}"
    by (rule emits_silent_forEach) (simp add: forwardEvent_def)
  have D: "emits (forEach (\<lambda>node2. callNode C (OnEvaluateEndIteration node2)) ns) forwardEvent {[]}"
    by (rule emits_silent_forEach) (simp add: forwardEvent_def)
  have Cc: "emits (\<lambda>s1. case p of
                 None \<Rightarrow> (Some InvalidAccess, s1)
               | Some lay \<Rightarrow>
                   EvaluateLoopFrames C lay (GetNumTimeSteps C (nodes s1) lay) dir ns s1) forwardEvent ?FR"
  proof (cases p)
    case None
    have "[] \<in> ?FR" by (auto simp: frameEvents_def FrameRangeIteration_def intro: exI[of _ 0])
    then show ?thesis using None by (auto simp: emits_def)
  next
    case (Some lay)
    have "\<And>T. emits (EvaluateLoopFrames C lay T dir ns) forwardEvent ?FR"
      by (rule emits_weaken[OF emits_frames]) auto
    then show ?thesis using Some
      using emits_dep[of "\<lambda>T. EvaluateLoopFrames C lay T dir ns"
          forwardEvent ?FR "\<lambda>s1. GetNumTimeSteps C (nodes s1) lay"]
      by simp
  qed
  show ?thesis
    by (rule emits_weaken[OF emits_andThen[OF A emits_andThen[OF B emits_andThen[OF Cc D]]]])
       (auto simp: loopEvents_def frameEvents_def)
qed

lemma emits_familyD:
  assumes "emits f P {g lay T | lay T. True}" "f s = (r, s')"
  shows "\<exists>es lay T. trace s' = trace s @ es \<and> prefix (filter P es) (g lay T) \<and>
           m_recurrentInfo s' = m_recurrentInfo s"
proof -
  from emitsD(2)[OF assms] obtain es full where
    f: "full \<in> {g lay T | lay T. True}" and t: "trace s' = trace s @ es"
    and p: "prefix (filter P es) full" by blast
  from f obtain lay T where "full = g lay T" by blast
  then show ?thesis using t p emitsD(1)[OF assms] by blast
qed

lemma EvaluateLoop_result:
  assumes "EvaluateLoop C i s = (r, s')"
  shows "\<exists>es lay T. trace s' = trace s @ es \<and>
           prefix (filter forwardEvent es)
             (loopEvents (m_recurrentNodesForForward (m_recurrentInfo s ! i)) lay
                (FrameRangeIteration T (m_steppingDirection (m_recurrentInfo s ! i)))) \<and>
           m_recurrentInfo s' =
             (if r = None
              then (m_recurrentInfo s)[i := (m_recurrentInfo s ! i)\<lparr>m_completedEvaluate := True\<rparr>]
              else m_recurrentInfo s)"
proof (cases "m_recurrentNodesForForward (m_recurrentInfo s ! i)")
  case Nil
  with assms have "r = Some InvalidAccess" "s' = s" by (simp_all add: EvaluateLoop_split)
  then show ?thesis by simp
next
  case (Cons first rest)
  let ?ns = "m_recurrentNodesForForward (m_recurrentInfo s ! i)"
  let ?dir = "m_steppingDirection (m_recurrentInfo s ! i)"
  let ?body = "andThen (forEach (loopBegin C (GetMBLayout C (nodes s) first)) ?ns)
     (andThen (forEach (\<lambda>node2. callNode C (Validate node2 True)) ?ns)
     (andThen (\<lambda>s1. case GetMBLayout C (nodes s) first of
                 None \<Rightarrow> (Some InvalidAccess, s1)
               | Some lay \<Rightarrow>
                   EvaluateLoopFrames C lay (GetNumTimeSteps C (nodes s1) lay) ?dir ?ns s1)
              (forEach (\<lambda>node2. callNode C (OnEvaluateEndIteration node2)) ?ns)))"
  obtain r1 s1 where b: "?body s = (r1, s1)" by (cases "?body s")
  have em: "emits ?body forwardEvent {loopEvents ?ns lay (FrameRangeIteration T ?dir) | lay T. True}"
    by (rule emits_loopBody)
  from emits_familyD[of ?body forwardEvent "\<lambda>lay T. loopEvents ?ns lay (FrameRangeIteration T ?dir)", OF em b]
  obtain es lay T where
    ri: "m_recurrentInfo s1 = m_recurrentInfo s" and tr: "trace s1 = trace s @ es"
    and pre: "prefix (filter forwardEvent es) (loopEvents ?ns lay (FrameRangeIteration T ?dir))"
    by blast
  have run: "andThen ?body (\<lambda>s2. (None, setCompletedEvaluate i True s2)) s = (r, s')"
    using assms Cons by (simp add: EvaluateLoop_split)
  show ?thesis
  proof (cases r1)
    case None
    with run b have "r = None" "s' = setCompletedEvaluate i True s1" by (simp_all add: andThen_def)
    then show ?thesis using ri tr pre
      by (intro exI[of _ es] exI[of _ lay] exI[of _ T]) (simp add: setCompletedEvaluate_def)
  next
    case (Some e)
    with run b have "r = Some e" "s' = s1" by (simp_all add: andThen_def)
    then show ?thesis using ri tr pre
      by (intro exI[of _ es] exI[of _ lay] exI[of _ T]) simp
  qed
qed

lemma Find_Some:
  "FindInRecurrentLoops ris n = Some i \<Longrightarrow> i < length ris \<and> n \<in> set (m_recurrentNodes (ris ! i))"
  by (induction ris arbitrary: i) (auto split: if_splits)

lemma Find_member:
  assumes "distinct (concat (map m_recurrentNodes ris))" "i < length ris"
    "n \<in> set (m_recurrentNodes (ris ! i))"
  shows "FindInRecurrentLoops ris n = Some i"
  using assms
proof (induction ris arbitrary: i)
  case Nil
  then show ?case by simp
next
  case (Cons r rest)
  show ?case
  proof (cases i)
    case 0
    with Cons.prems show ?thesis by simp
  next
    case (Suc j)
    with Cons.prems have j: "j < length rest" "n \<in> set (m_recurrentNodes (rest ! j))" by simp_all
    then have "n \<in> \<Union> (set ` set (map m_recurrentNodes rest))"
      by (metis UN_I length_map nth_map nth_mem)
    then have "n \<notin> set (m_recurrentNodes r)" using Cons.prems(1) by auto
    moreover have "FindInRecurrentLoops rest n = Some j" using Cons.IH[OF _ j] Cons.prems(1) by simp
    ultimately show ?thesis using Suc by simp
  qed
qed

lemma Find_forward:
  assumes "loopsWellFormed ris" "i < length ris" "n \<in> set (m_recurrentNodesForForward (ris ! i))"
  shows "FindInRecurrentLoops ris n = Some i"
proof -
  have "ris ! i \<in> set ris" using assms(2) by simp
  then have "n \<in> set (m_recurrentNodes (ris ! i))" using assms by (auto simp: loopsWellFormed_def)
  then show ?thesis using assms by (intro Find_member) (auto simp: loopsWellFormed_def)
qed

lemma Find_sameLoops: "sameLoops ris ris' \<Longrightarrow> FindInRecurrentLoops ris n = FindInRecurrentLoops ris' n"
proof (induction ris arbitrary: ris')
  case Nil
  then show ?case by (simp add: sameLoops_def)
next
  case (Cons r rest)
  then obtain r' rest' where eq: "ris' = r' # rest'" by (cases ris') (auto simp: sameLoops_def)
  with Cons.prems have "m_recurrentNodes r = m_recurrentNodes r'" "sameLoops rest rest'"
    by (auto simp: sameLoops_def)
  then show ?case using Cons.IH[of rest'] eq by simp
qed

lemma sameLoops_wf: "sameLoops ris ris' \<Longrightarrow> loopsWellFormed ris \<Longrightarrow> loopsWellFormed ris'"
proof -
  assume s: "sameLoops ris ris'" and w: "loopsWellFormed ris"
  have len: "length ris = length ris'" using s by (auto simp: sameLoops_def dest: map_eq_imp_length_eq)
  have 1: "distinct (concat (map m_recurrentNodes ris'))" using s w
    by (simp add: sameLoops_def loopsWellFormed_def)
  have 2: "distinct (m_recurrentNodesForForward r) \<and>
        set (m_recurrentNodesForForward r) = set (m_recurrentNodes r)" if "r \<in> set ris'" for r
  proof -
    from that obtain i where i: "i < length ris'" "r = ris' ! i" by (auto simp: in_set_conv_nth)
    have a: "m_recurrentNodes (ris ! i) = m_recurrentNodes r"
      using s i len by (metis nth_map sameLoops_def)
    have b: "m_recurrentNodesForForward (ris ! i) = m_recurrentNodesForForward r"
      using s i len by (metis nth_map sameLoops_def)
    have "ris ! i \<in> set ris" using i len by simp
    then show ?thesis using w a b by (auto simp: loopsWellFormed_def)
  qed
  show ?thesis using 1 2 by (simp add: loopsWellFormed_def)
qed

lemma sameLoops_refl: "sameLoops ris ris"
  by (simp add: sameLoops_def)

lemma map_update_same:
  assumes "f x = f (ris ! i)"
  shows "map f (ris[i := x]) = map f ris"
proof (cases "i < length ris")
  case True
  then have "(map f ris)[i := f (ris ! i)] = map f ris" by (metis list_update_id nth_map)
  then show ?thesis using assms by (simp add: map_update)
next
  case False
  then show ?thesis by (simp add: list_update_beyond)
qed

lemma sameLoops_update:
  "sameLoops ris (ris[i := (ris ! i)\<lparr>m_completedEvaluate := b\<rparr>])"
  by (simp add: sameLoops_def map_update_same)

lemma sameLoops_reset:
  "sameLoops ris (map (\<lambda>r. r\<lparr>m_completedEvaluate := False\<rparr>) ris)"
  by (simp add: sameLoops_def comp_def)

lemma distinct_FrameRangeIteration: "distinct (FrameRangeIteration T dir)"
  by (simp add: FrameRangeIteration_def)

lemma distinct_frameEvents:
  "distinct ns \<Longrightarrow> distinct frames \<Longrightarrow> distinct (frameEvents ns lay frames)"
proof (induction frames)
  case Nil
  then show ?case by (simp add: frameEvents_def)
next
  case (Cons t frames)
  have "distinct (map (\<lambda>n. EvaluateThisNode n (Frame lay t)) ns)"
    using Cons.prems by (simp add: distinct_map inj_on_def)
  moreover have "distinct (frameEvents ns lay frames)" using Cons by simp
  moreover have "set (map (\<lambda>n. EvaluateThisNode n (Frame lay t)) ns) \<inter> set (frameEvents ns lay frames) = {}"
    using Cons.prems by (auto simp: frameEvents_def)
  ultimately show ?case by (simp add: frameEvents_def)
qed

lemma loopEvents_frameEvents: "loopEvents ns lay frames = map OnEvaluateBeginIteration ns @ frameEvents ns lay frames"
  by (simp add: loopEvents_def frameEvents_def)

lemma distinct_loopEvents:
  "distinct ns \<Longrightarrow> distinct frames \<Longrightarrow> distinct (loopEvents ns lay frames)"
  using distinct_frameEvents[of ns frames lay]
  by (auto simp: loopEvents_frameEvents distinct_map inj_on_def frameEvents_def)

lemma loopEvents_member:
  "c \<in> set (loopEvents ns lay frames) \<Longrightarrow>
     \<exists>n \<in> set ns. c = OnEvaluateBeginIteration n \<or> (\<exists>t. c = EvaluateThisNode n (Frame lay t))"
  by (auto simp: loopEvents_def)

lemma walkInv_Post: "walkInv seen s \<Longrightarrow> walkPost r s"
  unfolding walkInv_def walkPost_def
  by (intro conjI allI impI; (elim conjE)?) (simp, blast, metis evaluatedNode.simps(1) not_Some_eq)

lemma emits_EvaluateWholeBatch:
  "emits (EvaluateWholeBatch C n) forwardEvent
     {[OnEvaluateBeginIteration n, EvaluateThisNode n (AllFrames l)] | l. True}"
proof -
  let ?E = "{[EvaluateThisNode n (AllFrames l)] | l. True}"
  have 1: "emits (callNode C (UpdateFunctionMBSize n)) forwardEvent {[]}"
    by (rule emits_callNode_no) (simp add: forwardEvent_def)
  have 2: "emits (whenDo (\<not> IsLeaf C n \<and> \<not> RequiresPreCompute C n) (callNode C (Validate n True)))
      forwardEvent {[]}"
    by (rule emits_whenDo_silent, rule emits_callNode_no) (simp add: forwardEvent_def)
  have 3: "emits (callNode C (OnEvaluateBeginIteration n)) forwardEvent {[OnEvaluateBeginIteration n]}"
    by (rule emits_callNode_yes) (simp add: forwardEvent_def)
  have "\<And>l. emits (callNode C (EvaluateThisNode n (AllFrames l))) forwardEvent ?E"
    by (rule emits_weaken[OF emits_callNode_yes]) (auto simp: forwardEvent_def)
  then have 4: "emits (\<lambda>s. callNode C (EvaluateThisNode n (AllFrames (GetMBLayout C (nodes s) n))) s)
      forwardEvent ?E"
    using emits_dep[of "\<lambda>l. callNode C (EvaluateThisNode n (AllFrames l))" forwardEvent ?E
        "\<lambda>s. GetMBLayout C (nodes s) n"] by simp
  have "\<And>l. emits (callNode C (MaskMissingValuesColumnsToZero n (AllFrames l))) forwardEvent {[]}"
    by (rule emits_callNode_no) (simp add: forwardEvent_def)
  then have "emits (\<lambda>s. callNode C (MaskMissingValuesColumnsToZero n (AllFrames (GetMBLayout C (nodes s) n))) s)
      forwardEvent {[]}"
    using emits_dep[of "\<lambda>l. callNode C (MaskMissingValuesColumnsToZero n (AllFrames l))" forwardEvent "{[]}"
        "\<lambda>s. GetMBLayout C (nodes s) n"] by simp
  then have 5: "emits (whenDo (IsNodeReqMultiSeqHandling C n)
      (\<lambda>s. callNode C (MaskMissingValuesColumnsToZero n (AllFrames (GetMBLayout C (nodes s) n))) s))
      forwardEvent {[]}"
    by (rule emits_whenDo_silent)
  have 6: "emits (callNode C (OnEvaluateEndIteration n)) forwardEvent {[]}"
    by (rule emits_callNode_no) (simp add: forwardEvent_def)
  have 7: "emits (callNode C (UpdateEvalTimeStamp n)) forwardEvent {[]}"
    by (rule emits_callNode_no) (simp add: forwardEvent_def)
  show ?thesis
    unfolding EvaluateWholeBatch_def
    by (rule emits_weaken[OF emits_andThen[OF 1 emits_andThen[OF 2 emits_andThen[OF 3
          emits_andThen[OF 4 emits_andThen[OF 5 emits_andThen[OF 6 7]]]]]]]) auto
qed

lemma emits_EndOnly: "emits (callNode C (OnEvaluateEndIteration n)) forwardEvent {[]}"
  by (rule emits_callNode_no) (simp add: forwardEvent_def)

text \<open>Extending the trace by calls that are no forward events keeps the invariant.\<close>

lemma walkInv_silent:
  assumes inv: "walkInv seen s"
    and ri: "m_recurrentInfo s' = m_recurrentInfo s"
    and tr: "trace s' = trace s @ es"
    and sil: "filter forwardEvent es = []"
  shows "walkInv (insert n seen) s'"
proof -
  have no: "\<And>c. c \<in> set es \<Longrightarrow> evaluatedNode c = None"
    using sil by (auto simp: filter_empty_conv forwardEvent_def)
  have noE: "\<And>m f. EvaluateThisNode m f \<notin> set es"
    using no by fastforce
  show ?thesis
    unfolding walkInv_def ri tr
  proof (intro conjI)
    show "loopsWellFormed (m_recurrentInfo s)" using inv by (simp add: walkInv_def)
    show "distinct (filter forwardEvent (trace s @ es))" using inv sil by (simp add: walkInv_def)
    show "\<forall>c\<in>set (trace s @ es). \<forall>m. evaluatedNode c = Some m \<longrightarrow>
        FindInRecurrentLoops (m_recurrentInfo s) m = None \<longrightarrow> m \<in> insert n seen"
      using inv no unfolding walkInv_def by fastforce
    show "\<forall>c\<in>set (trace s @ es). \<forall>m i. evaluatedNode c = Some m \<longrightarrow>
        FindInRecurrentLoops (m_recurrentInfo s) m = Some i \<longrightarrow>
        m_completedEvaluate (m_recurrentInfo s ! i)"
      using inv no unfolding walkInv_def by fastforce
    show "\<forall>m l. EvaluateThisNode m (AllFrames l) \<in> set (trace s @ es) \<longrightarrow>
        FindInRecurrentLoops (m_recurrentInfo s) m = None"
      using inv noE unfolding walkInv_def by auto
    show "\<forall>m lay t. EvaluateThisNode m (Frame lay t) \<in> set (trace s @ es) \<longrightarrow>
        FindInRecurrentLoops (m_recurrentInfo s) m \<noteq> None"
      using inv noE unfolding walkInv_def by auto
  qed
qed

lemma prefix_distinct: "prefix xs ys \<Longrightarrow> distinct ys \<Longrightarrow> distinct xs"
  by (auto simp: prefix_def)

lemma forwardEvent_filter_mem:
  "c \<in> set es \<Longrightarrow> evaluatedNode c = Some m \<Longrightarrow> c \<in> set (filter forwardEvent es)"
  by (simp add: forwardEvent_def)

lemma walkInv_batch:
  assumes inv: "walkInv seen s"
    and ri: "m_recurrentInfo s' = m_recurrentInfo s"
    and tr: "trace s' = trace s @ es"
    and pre: "prefix (filter forwardEvent es) [OnEvaluateBeginIteration n, EvaluateThisNode n (AllFrames l)]"
    and find: "FindInRecurrentLoops (m_recurrentInfo s) n = None"
    and fresh: "n \<notin> seen"
  shows "walkInv (insert n seen) s'"
proof -
  have sub: "set (filter forwardEvent es) \<subseteq> {OnEvaluateBeginIteration n, EvaluateThisNode n (AllFrames l)}"
    using set_mono_prefix[OF pre] by simp
  have new: "m = n" if "c \<in> set es" "evaluatedNode c = Some m" for c m
    using forwardEvent_filter_mem[OF that] sub that(2) by auto
  have newE: "m = n \<and> f = AllFrames l" if "EvaluateThisNode m f \<in> set es" for m f
    using forwardEvent_filter_mem[OF that, of m] sub by auto
  have d1: "distinct (filter forwardEvent es)"
    using pre by (rule prefix_distinct) simp
  have old: "evaluatedNode c \<noteq> Some n" if "c \<in> set (trace s)" for c
    using inv that find fresh unfolding walkInv_def by blast
  have d2: "set (filter forwardEvent (trace s)) \<inter> set (filter forwardEvent es) = {}"
    using old new by (fastforce simp: forwardEvent_def)
  show ?thesis
    unfolding walkInv_def ri tr
  proof (intro conjI)
    show "loopsWellFormed (m_recurrentInfo s)" using inv by (simp add: walkInv_def)
    show "distinct (filter forwardEvent (trace s @ es))"
      using inv d1 d2 by (simp add: walkInv_def)
    show "\<forall>c\<in>set (trace s @ es). \<forall>m. evaluatedNode c = Some m \<longrightarrow>
        FindInRecurrentLoops (m_recurrentInfo s) m = None \<longrightarrow> m \<in> insert n seen"
      using inv new unfolding walkInv_def by fastforce
    show "\<forall>c\<in>set (trace s @ es). \<forall>m i. evaluatedNode c = Some m \<longrightarrow>
        FindInRecurrentLoops (m_recurrentInfo s) m = Some i \<longrightarrow>
        m_completedEvaluate (m_recurrentInfo s ! i)"
      using inv new find unfolding walkInv_def by fastforce
    show "\<forall>m l. EvaluateThisNode m (AllFrames l) \<in> set (trace s @ es) \<longrightarrow>
        FindInRecurrentLoops (m_recurrentInfo s) m = None"
      using inv newE find unfolding walkInv_def by auto
    show "\<forall>m lay t. EvaluateThisNode m (Frame lay t) \<in> set (trace s @ es) \<longrightarrow>
        FindInRecurrentLoops (m_recurrentInfo s) m \<noteq> None"
    proof (intro allI impI)
      fix m lay t
      assume "EvaluateThisNode m (Frame lay t) \<in> set (trace s @ es)"
      then have "EvaluateThisNode m (Frame lay t) \<in> set (trace s)" using newE by auto
      then show "FindInRecurrentLoops (m_recurrentInfo s) m \<noteq> None"
        using inv unfolding walkInv_def by blast
    qed
  qed
qed

lemma walk_loop:
  assumes inv: "walkInv seen s"
    and i: "i < length (m_recurrentInfo s)"
    and open_loop: "\<not> m_completedEvaluate (m_recurrentInfo s ! i)"
    and tr: "trace s' = trace s @ es"
    and pre: "prefix (filter forwardEvent es)
        (loopEvents (m_recurrentNodesForForward (m_recurrentInfo s ! i)) lay frames)"
    and frames: "distinct frames"
    and ri: "m_recurrentInfo s' =
        (if r = None then (m_recurrentInfo s)[i := (m_recurrentInfo s ! i)\<lparr>m_completedEvaluate := True\<rparr>]
         else m_recurrentInfo s)"
  shows "(r = None \<longrightarrow> walkInv (insert n seen) s') \<and> walkPost r s'"
proof -
  let ?ris = "m_recurrentInfo s"
  let ?ns = "m_recurrentNodesForForward (?ris ! i)"
  have wf: "loopsWellFormed ?ris" using inv by (simp add: walkInv_def)
  have same: "sameLoops ?ris (m_recurrentInfo s')"
    using ri sameLoops_update[of ?ris i True] sameLoops_refl[of ?ris] by (cases r) simp_all
  have find_eq: "\<And>m. FindInRecurrentLoops (m_recurrentInfo s') m = FindInRecurrentLoops ?ris m"
    using Find_sameLoops[OF same] by simp
  have wf': "loopsWellFormed (m_recurrentInfo s')" using sameLoops_wf[OF same wf] .
  have "?ris ! i \<in> set ?ris" using i by simp
  then have dns: "distinct ?ns" using wf by (simp add: loopsWellFormed_def)
  have sub: "set (filter forwardEvent es) \<subseteq> set (loopEvents ?ns lay frames)"
    using set_mono_prefix[OF pre] .
  have member: "m \<in> set ?ns \<Longrightarrow> FindInRecurrentLoops ?ris m = Some i" for m
    using Find_forward[OF wf i] by simp
  have new: "FindInRecurrentLoops ?ris m = Some i" if "c \<in> set es" "evaluatedNode c = Some m" for c m
  proof -
    have "c \<in> set (loopEvents ?ns lay frames)" using forwardEvent_filter_mem[OF that] sub by blast
    from loopEvents_member[OF this] that(2) have "m \<in> set ?ns" by auto
    then show ?thesis by (rule member)
  qed
  have newE: "\<exists>t. f = Frame lay t" if "EvaluateThisNode m f \<in> set es" for m f
  proof -
    have "EvaluateThisNode m f \<in> set (loopEvents ?ns lay frames)"
      using forwardEvent_filter_mem[OF that, of m] sub by auto
    from loopEvents_member[OF this] show ?thesis by auto
  qed
  have newF: "FindInRecurrentLoops ?ris m = Some i" if "EvaluateThisNode m f \<in> set es" for m f
    using new[OF that] by simp
  have d1: "distinct (filter forwardEvent es)"
    using pre by (rule prefix_distinct) (rule distinct_loopEvents[OF dns frames])
  have old: "FindInRecurrentLoops ?ris m \<noteq> Some i" if "c \<in> set (trace s)" "evaluatedNode c = Some m" for c m
    using inv that open_loop unfolding walkInv_def by blast
  have d2: "set (filter forwardEvent (trace s)) \<inter> set (filter forwardEvent es) = {}"
  proof -
    have False if "c \<in> set (trace s)" "c \<in> set es" "forwardEvent c" for c
    proof -
      from that(3) obtain m where m: "evaluatedNode c = Some m" by (auto simp: forwardEvent_def)
      show False using old[OF that(1) m] new[OF that(2) m] by simp
    qed
    then show ?thesis by auto
  qed
  have dist: "distinct (filter forwardEvent (trace s @ es))"
    using inv d1 d2 by (simp add: walkInv_def)
  have oldA: "\<And>m l. EvaluateThisNode m (AllFrames l) \<in> set (trace s) \<Longrightarrow> FindInRecurrentLoops ?ris m = None"
    using inv unfolding walkInv_def by blast
  have oldF: "\<And>m lay t. EvaluateThisNode m (Frame lay t) \<in> set (trace s) \<Longrightarrow>
      \<exists>j. FindInRecurrentLoops ?ris m = Some j \<and> m_completedEvaluate (?ris ! j)"
  proof -
    fix m lay t
    assume a: "EvaluateThisNode m (Frame lay t) \<in> set (trace s)"
    then have "FindInRecurrentLoops ?ris m \<noteq> None" using inv unfolding walkInv_def by blast
    then obtain j where j: "FindInRecurrentLoops ?ris m = Some j" by auto
    have "m_completedEvaluate (?ris ! j)"
      using inv a j unfolding walkInv_def by (metis evaluatedNode.simps(1))
    then show "\<exists>j. FindInRecurrentLoops ?ris m = Some j \<and> m_completedEvaluate (?ris ! j)"
      using j by blast
  qed
  have allF: "\<And>m l. EvaluateThisNode m (AllFrames l) \<in> set (trace s @ es) \<Longrightarrow> FindInRecurrentLoops ?ris m = None"
    using oldA newE by fastforce
  have keep: "m_completedEvaluate (m_recurrentInfo s' ! j)"
    if "j < length ?ris" "m_completedEvaluate (?ris ! j)" for j
    using that ri by (cases r; cases "j = i") (simp_all add: nth_list_update)
  have post: "walkPost r s'"
    unfolding walkPost_def tr find_eq
  proof (intro conjI allI impI)
    show "distinct (filter forwardEvent (trace s @ es))" by (rule dist)
    show "\<And>m l. EvaluateThisNode m (AllFrames l) \<in> set (trace s @ es) \<Longrightarrow> FindInRecurrentLoops ?ris m = None"
      by (rule allF)
    show "\<exists>j. FindInRecurrentLoops ?ris m = Some j \<and> (r = None \<longrightarrow> m_completedEvaluate (m_recurrentInfo s' ! j))"
      if a: "EvaluateThisNode m (Frame lay' t) \<in> set (trace s @ es)" for m lay' t
    proof (cases "EvaluateThisNode m (Frame lay' t) \<in> set es")
      case True
      have "r = None \<longrightarrow> m_completedEvaluate (m_recurrentInfo s' ! i)" using ri i by simp
      then show ?thesis using newF[OF True] by blast
    next
      case False
      with a have "EvaluateThisNode m (Frame lay' t) \<in> set (trace s)" by simp
      from oldF[OF this] obtain j where j: "FindInRecurrentLoops ?ris m = Some j" "m_completedEvaluate (?ris ! j)"
        by blast
      have "j < length ?ris" using Find_Some[OF j(1)] by simp
      then show ?thesis using keep j by blast
    qed
  qed
  have invn: "walkInv (insert n seen) s'" if rn: "r = None"
    unfolding walkInv_def tr find_eq
  proof (intro conjI)
    show "loopsWellFormed (m_recurrentInfo s')" by (rule wf')
    show "distinct (filter forwardEvent (trace s @ es))" by (rule dist)
    show "\<forall>c\<in>set (trace s @ es). \<forall>m. evaluatedNode c = Some m \<longrightarrow>
        FindInRecurrentLoops ?ris m = None \<longrightarrow> m \<in> insert n seen"
      using inv new unfolding walkInv_def by fastforce
    show "\<forall>c\<in>set (trace s @ es). \<forall>m j. evaluatedNode c = Some m \<longrightarrow>
        FindInRecurrentLoops ?ris m = Some j \<longrightarrow> m_completedEvaluate (m_recurrentInfo s' ! j)"
    proof (intro ballI allI impI)
      fix c m j
      assume c: "c \<in> set (trace s @ es)" and m: "evaluatedNode c = Some m"
        and j: "FindInRecurrentLoops ?ris m = Some j"
      show "m_completedEvaluate (m_recurrentInfo s' ! j)"
      proof (cases "c \<in> set es")
        case True
        from new[OF True m] j have "j = i" by simp
        then show ?thesis using ri rn i by simp
      next
        case False
        with c have "c \<in> set (trace s)" by simp
        then have "m_completedEvaluate (?ris ! j)" using inv m j unfolding walkInv_def by blast
        moreover have "j < length ?ris" using Find_Some[OF j] by simp
        ultimately show ?thesis by (rule keep[rotated])
      qed
    qed
    show "\<forall>m l. EvaluateThisNode m (AllFrames l) \<in> set (trace s @ es) \<longrightarrow>
        FindInRecurrentLoops ?ris m = None"
      using allF by blast
    show "\<forall>m lay t. EvaluateThisNode m (Frame lay t) \<in> set (trace s @ es) \<longrightarrow>
        FindInRecurrentLoops ?ris m \<noteq> None"
      using oldF newF by fastforce
  qed
  show ?thesis using post invn by blast
qed

lemma EvaluateNode_step:
  assumes inv: "walkInv seen s" and fresh: "n \<notin> seen"
    and run: "EvaluateNode C n s = (r, s')"
  shows "(r = None \<longrightarrow> walkInv (insert n seen) s') \<and> walkPost r s'"
proof (cases "FindInRecurrentLoops (m_recurrentInfo s) n")
  case None
  show ?thesis
  proof (cases "NodeIsFuncValueOlderThanInputs C (nodes s) n")
    case True
    with None run have "EvaluateWholeBatch C n s = (r, s')" by (simp add: EvaluateNode_def)
    from emitsD[OF emits_EvaluateWholeBatch this] obtain es l where
      "m_recurrentInfo s' = m_recurrentInfo s" "trace s' = trace s @ es"
      "prefix (filter forwardEvent es) [OnEvaluateBeginIteration n, EvaluateThisNode n (AllFrames l)]"
      by blast
    then have "walkInv (insert n seen) s'" using walkInv_batch[OF inv _ _ _ None fresh] by blast
    then show ?thesis using walkInv_Post by blast
  next
    case False
    with None run have "callNode C (OnEvaluateEndIteration n) s = (r, s')" by (simp add: EvaluateNode_def)
    from emitsD[OF emits_EndOnly this] obtain es where
      "m_recurrentInfo s' = m_recurrentInfo s" "trace s' = trace s @ es" "filter forwardEvent es = []"
      by auto
    then have "walkInv (insert n seen) s'" using walkInv_silent[OF inv] by blast
    then show ?thesis using walkInv_Post by blast
  qed
next
  case (Some i)
  have i: "i < length (m_recurrentInfo s)" using Find_Some[OF Some] by simp
  show ?thesis
  proof (cases "IsFuncValueOlderThanInputs C (nodes s) (m_recurrentNodesForForward (m_recurrentInfo s ! i)) \<and>
             \<not> m_completedEvaluate (m_recurrentInfo s ! i)")
    case True
    with Some run have "EvaluateLoop C i s = (r, s')" by (simp add: EvaluateNode_def)
    from EvaluateLoop_result[OF this] obtain es lay T where
      tr: "trace s' = trace s @ es"
      and pre: "prefix (filter forwardEvent es)
             (loopEvents (m_recurrentNodesForForward (m_recurrentInfo s ! i)) lay
                (FrameRangeIteration T (m_steppingDirection (m_recurrentInfo s ! i))))"
      and ri: "m_recurrentInfo s' =
             (if r = None
              then (m_recurrentInfo s)[i := (m_recurrentInfo s ! i)\<lparr>m_completedEvaluate := True\<rparr>]
              else m_recurrentInfo s)" by blast
    show ?thesis
      using walk_loop[OF inv i _ tr pre distinct_FrameRangeIteration ri] True by blast
  next
    case False
    with Some run have "callNode C (OnEvaluateEndIteration n) s = (r, s')"
      by (auto simp: EvaluateNode_def)
    from emitsD[OF emits_EndOnly this] obtain es where
      "m_recurrentInfo s' = m_recurrentInfo s" "trace s' = trace s @ es" "filter forwardEvent es = []"
      by auto
    then have "walkInv (insert n seen) s'" using walkInv_silent[OF inv] by blast
    then show ?thesis using walkInv_Post by blast
  qed
qed

lemma EvaluateWalk:
  assumes "walkInv seen s" "distinct ns" "set ns \<inter> seen = {}"
    and "forEach (EvaluateNode C) ns s = (r, s')"
  shows "walkPost r s'"
  using assms
proof (induction ns arbitrary: s seen)
  case Nil
  then show ?case using walkInv_Post by auto
next
  case (Cons n ns)
  obtain r1 s1 where st: "EvaluateNode C n s = (r1, s1)" by (cases "EvaluateNode C n s")
  have fresh: "n \<notin> seen" using Cons.prems(3) by simp
  from EvaluateNode_step[OF Cons.prems(1) fresh st]
  have step: "r1 = None \<longrightarrow> walkInv (insert n seen) s1" "walkPost r1 s1" by simp_all
  show ?case
  proof (cases r1)
    case None
    with Cons.prems(4) st have rest: "forEach (EvaluateNode C) ns s1 = (r, s')" by simp
    have "set ns \<inter> insert n seen = {}" using Cons.prems(2,3) by auto
    then show ?thesis using Cons.IH[OF _ _ _ rest] step(1) None Cons.prems(2) by simp
  next
    case (Some e)
    with Cons.prems(4) st have "r = r1" "s' = s1" by simp_all
    then show ?thesis using step(2) by simp
  qed
qed

lemmas ex_defs = exContract_def exLoop_def exStore_def exNetwork_def

lemmas run_defs = Evaluate_def EvaluateNode_def EvaluateLoop_def EvaluateLoopFrames_def EvaluateWholeBatch_def
  loopBegin_def loopEvaluateFrame_def andThen_def whenDo_def callNode_def
  BuiltAndValidatedSubNetwork_def resetCompletedEvaluate_def setCompletedEvaluate_def
  FrameRangeIteration_def OperationNameOf_PastValueNode_def OperationNameOf_FutureValueNode_def

lemma ex_Evaluate:
  "Evaluate exContract 3 exNetwork =
     (None, exNetwork\<lparr>m_recurrentInfo := [exLoop\<lparr>m_completedEvaluate := True\<rparr>],
        trace := [UpdateFunctionMBSize 5, OnEvaluateBeginIteration 5,
                  EvaluateThisNode 5 (AllFrames (Some 7)), OnEvaluateEndIteration 5, UpdateEvalTimeStamp 5,
                  UpdateFunctionMBSize 4, OnEvaluateBeginIteration 4,
                  UpdateFunctionMBSize 3, OnEvaluateBeginIteration 3,
                  Validate 4 True, Validate 3 True,
                  EvaluateThisNode 4 (Frame 7 0), UpdateEvalTimeStamp 4,
                  EvaluateThisNode 3 (Frame 7 0), UpdateEvalTimeStamp 3,
                  EvaluateThisNode 4 (Frame 7 1), UpdateEvalTimeStamp 4,
                  EvaluateThisNode 3 (Frame 7 1), UpdateEvalTimeStamp 3,
                  OnEvaluateEndIteration 4, OnEvaluateEndIteration 3,
                  OnEvaluateEndIteration 3]\<rparr>)"
  by (simp add: run_defs ex_defs upt_rec)

lemma evaluations_filter: "evaluations cs = map (the \<circ> evaluationOf) (filter isEvaluation cs)"
proof -
  have "isEvaluation = (\<lambda>x. evaluationOf x \<noteq> None)" by (rule ext) (simp only: isEvaluation_def)
  then show ?thesis by (simp only: evaluations_def List.map_filter_def)
qed

lemma gradients_filter: "gradients cs = map (the \<circ> gradientOf) (filter gradientEvent cs)"
proof -
  have "gradientEvent = (\<lambda>x. gradientOf x \<noteq> None)" by (rule ext) (simp only: gradientEvent_def)
  then show ?thesis by (simp only: gradients_def List.map_filter_def)
qed

lemma emits_loopEvaluateFrame_eval:
  "emits (loopEvaluateFrame C t n) isEvaluation {[EvaluateThisNode n t]}"
proof -
  have 1: "emits (whenDo (IsNodeReqMultiSeqHandling C n) (callNode C (MaskMissingValuesColumnsToZero n t)))
     isEvaluation {[]}"
    by (rule emits_whenDo_silent, rule emits_callNode_no) (simp add: isEvaluation_def)
  have 2: "emits (callNode C (UpdateEvalTimeStamp n)) isEvaluation {[]}"
    by (rule emits_callNode_no) (simp add: isEvaluation_def)
  have 3: "emits (callNode C (EvaluateThisNode n t)) isEvaluation {[EvaluateThisNode n t]}"
    by (rule emits_callNode_yes) (simp add: isEvaluation_def)
  show ?thesis
    unfolding loopEvaluateFrame_def
    using emits_andThen[OF 3 emits_andThen[OF 1 2]] by simp
qed

lemma emits_loopGradientFrame:
  "emits (loopGradientFrame C t n) gradientEvent {[ComputeGradientForChildren n t]}"
proof -
  have "\<And>k. emits (callNode C (VerifyNumParallelSequences n k)) gradientEvent {[]}"
    by (rule emits_callNode_no) (simp add: gradientEvent_def)
  then have 1: "emits (\<lambda>s. callNode C (VerifyNumParallelSequences n
                      (GetNumParallelSequences C (nodes s) (m_pMBLayout s))) s) gradientEvent {[]}"
    using emits_dep[of "\<lambda>k. callNode C (VerifyNumParallelSequences n k)" gradientEvent "{[]}"
        "\<lambda>s. GetNumParallelSequences C (nodes s) (m_pMBLayout s)"] by simp
  have 2: "emits (whenDo (IsNodeReqMultiSeqHandling C n) (callNode C (MaskMissingGradientColumnsToZero n t)))
     gradientEvent {[]}"
    by (rule emits_whenDo_silent, rule emits_callNode_no) (simp add: gradientEvent_def)
  have 3: "emits (callNode C (ComputeGradientForChildren n t)) gradientEvent {[ComputeGradientForChildren n t]}"
    by (rule emits_callNode_yes) (simp add: gradientEvent_def)
  show ?thesis
    unfolding loopGradientFrame_def
    using emits_andThen[OF 1 emits_andThen[OF 2 3]] by simp
qed

lemma emits_nested:
  assumes "\<And>t n. emits (f t n) P {[c t n]}"
  shows "emits (forEach (\<lambda>t. forEach (f t) ns) frames) P {concat (map (\<lambda>t. map (c t) ns) frames)}"
proof -
  have inner: "emits (forEach (f t) ns) P {map (c t) ns}" for t
  proof -
    have "emits (forEach (f t) ns) P {concat (map (\<lambda>n. [c t n]) ns)}"
      by (rule emits_forEach) (rule assms)
    then show ?thesis by (simp add: concat_map_singleton)
  qed
  show ?thesis
    by (rule emits_forEach[where g = "\<lambda>t. map (c t) ns"]) (rule inner)
qed

lemma emits_success:
  assumes "emits f P {full}" "f s = (None, s')"
  shows "filter P (callsMade s s') = full"
  using emitsD(2)[OF assms] by (auto simp: callsMade_def)

lemma rev_frames:
  "rev (concat (map (\<lambda>t. map (c t) ns) frames)) = concat (map (\<lambda>t. map (c t) (rev ns)) (rev frames))"
  by (induction frames) (simp_all add: rev_map)

text \<open>
  C6. The backward pass of a recurrent loop is the reverse of its forward pass on both
  axes. When the frame iteration of \<^verbatim>\<open>Evaluate\<close> and that of \<^verbatim>\<open>ComputeGradient\<close> run
  to their end over the same layout, number of time steps, stepping direction and member
  list, the sequence of (node, frame) at which \<^verbatim>\<open>ComputeGradientForChildren\<close> is called
  is the reverse of the sequence at which \<^verbatim>\<open>EvaluateThisNode\<close> is called: the frames of
  \<^verbatim>\<open>FrameRangeIteration\<close> in reverse and, in each frame, the members in reverse of the
  forward order. The gradient order of the nodes is the reverse of the evaluation order.
\<close>

theorem backward_reverses_forward:
  assumes fwd: "EvaluateLoopFrames C lay T step ns s = (None, s')"
    and bwd: "ComputeGradientLoopFrames C lay T step ns t = (None, t')"
  shows "gradients (callsMade t t') = rev (evaluations (callsMade s s')) \<and>
         gradients (callsMade t t') =
           concat (map (\<lambda>k. map (\<lambda>n. (n, Frame lay k)) (rev ns)) (rev (FrameRangeIteration T step))) \<and>
         GetGradientCalcOrder C rootNode = rev (GetEvalOrder C rootNode)"
proof -
  have e: "emits (EvaluateLoopFrames C lay T step ns) isEvaluation
      {concat (map (\<lambda>k. map (\<lambda>n. EvaluateThisNode n (Frame lay k)) ns) (FrameRangeIteration T step))}"
    unfolding EvaluateLoopFrames_def
    by (rule emits_nested[where c = "\<lambda>k n. EvaluateThisNode n (Frame lay k)"])
       (rule emits_loopEvaluateFrame_eval)
  have g: "emits (ComputeGradientLoopFrames C lay T step ns) gradientEvent
      {concat (map (\<lambda>k. map (\<lambda>n. ComputeGradientForChildren n (Frame lay k)) (rev ns))
         (FrameRangeIteration_reverse T step))}"
    unfolding ComputeGradientLoopFrames_def
    by (rule emits_nested[where c = "\<lambda>k n. ComputeGradientForChildren n (Frame lay k)"])
       (rule emits_loopGradientFrame)
  have ev: "evaluations (callsMade s s') =
      concat (map (\<lambda>k. map (\<lambda>n. (n, Frame lay k)) ns) (FrameRangeIteration T step))"
    unfolding evaluations_filter emits_success[OF e fwd]
    by (simp add: map_concat comp_def)
  have gr: "gradients (callsMade t t') =
      concat (map (\<lambda>k. map (\<lambda>n. (n, Frame lay k)) (rev ns)) (rev (FrameRangeIteration T step)))"
    unfolding gradients_filter emits_success[OF g bwd]
    by (simp add: map_concat comp_def FrameRangeIteration_reverse_def)
  show ?thesis
    unfolding ev gr by (simp add: rev_frames GetGradientCalcOrder_def)
qed

text \<open>
  C4. The seeding of the root gradient in \<^verbatim>\<open>ComputeGradient\<close> never throws. With
  \<^verbatim>\<open>bResetToOne\<close> alone the root gradient becomes the 1 x 1 matrix of value 1; with an
  initial value \<open>M\<close> it becomes \<open>M\<close>, whatever \<^verbatim>\<open>bResetToOne\<close> is; with both, the
  reset is applied first and the overwriting second, so the initial value wins; with
  neither, nothing changes.
\<close>

theorem seedRootGradient_result:
  "fst (seedRootGradient rootNode bResetToOne init s) = None \<and>
   GradientValues (nodes (snd (seedRootGradient rootNode True None s))) rootNode =
     \<lparr>numRows = 1, numCols = 1, elems = (\<lambda>i j. 1)\<rparr> \<and>
   GradientValues (nodes (snd (seedRootGradient rootNode bResetToOne (Some M) s))) rootNode = M \<and>
   seedRootGradient rootNode True (Some M) s =
     updateGradientValues rootNode (SetValueMatrix M) (snd (seedRootGradient rootNode True None s)) \<and>
   seedRootGradient rootNode False None s = (None, s)"
  by (cases bResetToOne; cases init)
     (simp_all add: seedRootGradient_def andThen_def whenDo_def updateGradientValues_def
        Resize_def SetValue_def SetValueMatrix_def)

lemma sameLoops_updateG:
  "sameLoops ris (ris[i := (ris ! i)\<lparr>m_completedGradient := b\<rparr>])"
  by (simp add: sameLoops_def map_update_same)

lemma emits_noEvent_call: "emits (callNode C c) noEvent {[]}"
  by (rule emits_callNode_no) (simp add: noEvent_def)

lemma emits_noEvent_andThen:
  "emits f noEvent {[]} \<Longrightarrow> emits g noEvent {[]} \<Longrightarrow> emits (andThen f g) noEvent {[]}"
  using emits_andThen[of f noEvent "{[]}" g "{[]}"] by simp

lemma emits_noEvent_forEach:
  assumes "\<And>x. emits (f x) noEvent {[]}"
  shows "emits (forEach f xs) noEvent {[]}"
proof -
  have "emits (forEach f xs) noEvent {concat (map (\<lambda>x. []) xs)}"
    by (rule emits_forEach) (rule assms)
  moreover have "concat (map (\<lambda>x. []) xs) = ([] :: call list)" by (induction xs) simp_all
  ultimately show ?thesis by simp
qed

lemma emits_noEvent_loopGradientFrame: "emits (loopGradientFrame C t n) noEvent {[]}"
proof -
  have "\<And>k. emits (callNode C (VerifyNumParallelSequences n k)) noEvent {[]}"
    by (rule emits_noEvent_call)
  then have 1: "emits (\<lambda>s. callNode C (VerifyNumParallelSequences n
                      (GetNumParallelSequences C (nodes s) (m_pMBLayout s))) s) noEvent {[]}"
    using emits_dep[of "\<lambda>k. callNode C (VerifyNumParallelSequences n k)" noEvent "{[]}"
        "\<lambda>s. GetNumParallelSequences C (nodes s) (m_pMBLayout s)"] by simp
  show ?thesis
    unfolding loopGradientFrame_def
    by (intro emits_noEvent_andThen 1 emits_whenDo_silent emits_noEvent_call)
qed

lemma emits_noEvent_frames: "emits (ComputeGradientLoopFrames C lay T dir ns) noEvent {[]}"
  unfolding ComputeGradientLoopFrames_def
  by (intro emits_noEvent_forEach emits_noEvent_loopGradientFrame)

lemma emits_noEvent_middle:
  "emits (\<lambda>s1. case ns of
              [] \<Rightarrow> (Some InvalidAccess, s1)
            | first # _ \<Rightarrow>
                (case GetMBLayout C (nodes s1) first of
                   None \<Rightarrow> (Some InvalidAccess, s1)
                 | Some lay \<Rightarrow>
                     ComputeGradientLoopFrames C lay (GetNumTimeSteps C (nodes s1) lay) dir ns s1))
     noEvent {[]}"
  unfolding emits_def
proof (intro allI impI)
  fix s r s'
  assume run: "(case ns of
              [] \<Rightarrow> (Some InvalidAccess, s)
            | first # _ \<Rightarrow>
                (case GetMBLayout C (nodes s) first of
                   None \<Rightarrow> (Some InvalidAccess, s)
                 | Some lay \<Rightarrow>
                     ComputeGradientLoopFrames C lay (GetNumTimeSteps C (nodes s) lay) dir ns s)) = (r, s')"
  show "m_recurrentInfo s' = m_recurrentInfo s \<and>
        (\<exists>es full. full \<in> {[]} \<and> trace s' = trace s @ es \<and> prefix (filter noEvent es) full \<and>
           (r = None \<longrightarrow> filter noEvent es = full))"
  proof (cases ns)
    case Nil
    with run show ?thesis by auto
  next
    case (Cons first rest)
    show ?thesis
    proof (cases "GetMBLayout C (nodes s) first")
      case None
      with run Cons show ?thesis by auto
    next
      case (Some lay)
      with run Cons have "ComputeGradientLoopFrames C lay (GetNumTimeSteps C (nodes s) lay) dir ns s = (r, s')"
        by simp
      from emitsD[OF emits_noEvent_frames this] show ?thesis by simp
    qed
  qed
qed

lemma ComputeGradientLoop_split:
  "ComputeGradientLoop C i s =
     andThen
       (andThen (forEach (\<lambda>node2. callNode C (OnComputeGradientBeginIteration node2))
                   (m_recurrentNodesForForward (m_recurrentInfo s ! i)))
       (andThen (\<lambda>s1. case m_recurrentNodesForForward (m_recurrentInfo s ! i) of
                    [] \<Rightarrow> (Some InvalidAccess, s1)
                  | first # _ \<Rightarrow>
                      (case GetMBLayout C (nodes s1) first of
                         None \<Rightarrow> (Some InvalidAccess, s1)
                       | Some lay \<Rightarrow>
                           ComputeGradientLoopFrames C lay (GetNumTimeSteps C (nodes s1) lay)
                             (m_steppingDirection (m_recurrentInfo s ! i))
                             (m_recurrentNodesForForward (m_recurrentInfo s ! i)) s1))
                (forEach (\<lambda>node2. callNode C (OnComputeGradientEndIteration node2))
                   (m_recurrentNodesForForward (m_recurrentInfo s ! i)))))
       (\<lambda>s2. (None, setCompletedGradient i True s2)) s"
  by (simp add: ComputeGradientLoop_def Let_def andThen_assoc)

lemma ComputeGradientLoop_result:
  assumes "ComputeGradientLoop C i s = (r, s')"
  shows "(\<exists>es. trace s' = trace s @ es) \<and>
         m_recurrentInfo s' =
           (if r = None
            then (m_recurrentInfo s)[i := (m_recurrentInfo s ! i)\<lparr>m_completedGradient := True\<rparr>]
            else m_recurrentInfo s)"
proof -
  let ?ns = "m_recurrentNodesForForward (m_recurrentInfo s ! i)"
  let ?dir = "m_steppingDirection (m_recurrentInfo s ! i)"
  let ?body = "andThen (forEach (\<lambda>node2. callNode C (OnComputeGradientBeginIteration node2)) ?ns)
       (andThen (\<lambda>s1. case ?ns of
                    [] \<Rightarrow> (Some InvalidAccess, s1)
                  | first # _ \<Rightarrow>
                      (case GetMBLayout C (nodes s1) first of
                         None \<Rightarrow> (Some InvalidAccess, s1)
                       | Some lay \<Rightarrow>
                           ComputeGradientLoopFrames C lay (GetNumTimeSteps C (nodes s1) lay) ?dir ?ns s1))
                (forEach (\<lambda>node2. callNode C (OnComputeGradientEndIteration node2)) ?ns))"
  have em: "emits ?body noEvent {[]}"
    by (intro emits_noEvent_andThen emits_noEvent_forEach emits_noEvent_call emits_noEvent_middle)
  obtain r1 s1 where b: "?body s = (r1, s1)" by (cases "?body s")
  have ri: "m_recurrentInfo s1 = m_recurrentInfo s" using emitsD(1)[OF em b] .
  obtain es where tr: "trace s1 = trace s @ es" using emitsD(2)[OF em b] by blast
  have run: "andThen ?body (\<lambda>s2. (None, setCompletedGradient i True s2)) s = (r, s')"
    using assms by (simp add: ComputeGradientLoop_split)
  show ?thesis
  proof (cases r1)
    case None
    with run b have "r = None" "s' = setCompletedGradient i True s1" by (simp_all add: andThen_def)
    then show ?thesis using ri tr by (simp add: setCompletedGradient_def)
  next
    case (Some e)
    with run b have "r = Some e" "s' = s1" by (simp_all add: andThen_def)
    then show ?thesis using ri tr by simp
  qed
qed

lemma emits_all_call: "emits (callNode C c) (\<lambda>c. True) {[c]}"
  by (rule emits_callNode_yes) simp

lemma emits_all_mask:
  "emits (whenDo (IsNodeReqMultiSeqHandling C n)
            (\<lambda>s. if IsPartOfLoop C (nodes s) n then (Some WholeBatchOnLoopNode, s)
                  else callNode C (MaskMissingGradientColumnsToZero n
                         (AllFrames (GetMBLayout C (nodes s) n))) s))
     (\<lambda>c. True)
     {mask. mask = [] \<or> (\<exists>l'. mask = [MaskMissingGradientColumnsToZero n (AllFrames l')])}"
  unfolding emits_def whenDo_def callNode_def
  by (auto split: prod.splits if_splits)

lemma emits_all_gradient:
  "emits (\<lambda>s. callNode C (ComputeGradientForChildren n (AllFrames (GetMBLayout C (nodes s) n))) s)
     (\<lambda>c. True) {[ComputeGradientForChildren n (AllFrames l)] | l. True}"
  unfolding emits_def callNode_def
  by (auto split: prod.splits)

lemma ComputeGradientWholeBatch_result:
  assumes "ComputeGradientWholeBatch C n s = (r, s')"
  shows "m_recurrentInfo s' = m_recurrentInfo s \<and> (\<exists>es. trace s' = trace s @ es \<and>
           (r = None \<longrightarrow> wholeBatchGradient n es))"
proof -
  let ?F = "{OnComputeGradientBeginIteration n # mask @
          [ComputeGradientForChildren n (AllFrames l), OnComputeGradientEndIteration n] | l mask.
        mask = [] \<or> (\<exists>l'. mask = [MaskMissingGradientColumnsToZero n (AllFrames l')])}"
  have em: "emits (ComputeGradientWholeBatch C n) (\<lambda>c. True) ?F"
    unfolding ComputeGradientWholeBatch_def
    by (rule emits_weaken[OF emits_andThen[OF emits_all_call emits_andThen[OF emits_all_mask
          emits_andThen[OF emits_all_gradient emits_all_call]]]]) auto
  from em assms obtain es full where
    f: "full \<in> ?F" and t: "trace s' = trace s @ es" and c: "r = None \<longrightarrow> filter (\<lambda>c. True) es = full"
    by (rule emitsE)
  have "r = None \<longrightarrow> wholeBatchGradient n es"
    using f c unfolding wholeBatchGradient_def by auto
  then show ?thesis using emitsD(1)[OF em assms] t by blast
qed

lemma ComputeGradientNode_result:
  assumes "ComputeGradientNode C n s = (r, s')"
  shows "sameLoops (m_recurrentInfo s) (m_recurrentInfo s') \<and> (\<exists>es. trace s' = trace s @ es \<and>
           (r = None \<longrightarrow> FindInRecurrentLoops (m_recurrentInfo s) n = None \<longrightarrow> wholeBatchGradient n es))"
proof (cases "FindInRecurrentLoops (m_recurrentInfo s) n")
  case None
  with assms have "ComputeGradientWholeBatch C n s = (r, s')" by (simp add: ComputeGradientNode_def)
  from ComputeGradientWholeBatch_result[OF this] show ?thesis by (auto simp: sameLoops_refl)
next
  case (Some i)
  show ?thesis
  proof (cases "m_completedGradient (m_recurrentInfo s ! i)")
    case True
    with Some assms have "s' = s" by (simp add: ComputeGradientNode_def)
    then show ?thesis using Some by (simp add: sameLoops_refl)
  next
    case False
    with Some assms have "ComputeGradientLoop C i s = (r, s')" by (simp add: ComputeGradientNode_def)
    from ComputeGradientLoop_result[OF this] show ?thesis
      using Some sameLoops_updateG[of "m_recurrentInfo s" i True] sameLoops_refl[of "m_recurrentInfo s"]
      by (cases r) auto
  qed
qed

lemma ComputeGradientWalk_nodes:
  assumes "forEach (ComputeGradientNode C) ns s = (None, s')"
  shows "(\<exists>es. trace s' = trace s @ es) \<and>
         (\<forall>m \<in> set ns. FindInRecurrentLoops (m_recurrentInfo s) m = None \<longrightarrow>
            (\<exists>pre seg post. trace s' = trace s @ pre @ seg @ post \<and> wholeBatchGradient m seg))"
  using assms
proof (induction ns arbitrary: s)
  case Nil
  then show ?case by simp
next
  case (Cons n ns)
  obtain r1 s1 where st: "ComputeGradientNode C n s = (r1, s1)" by (cases "ComputeGradientNode C n s")
  have r1: "r1 = None" using Cons.prems st by (cases r1) simp_all
  have rest: "forEach (ComputeGradientNode C) ns s1 = (None, s')" using Cons.prems st r1 by simp
  note res = ComputeGradientNode_result[OF st]
  have same: "sameLoops (m_recurrentInfo s) (m_recurrentInfo s1)" using res by (rule conjunct1)
  from res obtain es1 where t1: "trace s1 = trace s @ es1"
    and seg: "FindInRecurrentLoops (m_recurrentInfo s) n = None \<longrightarrow> wholeBatchGradient n es1"
    using r1 by (elim conjE exE) simp
  note ih = Cons.IH[OF rest]
  from ih obtain es2 where t2: "trace s' = trace s1 @ es2" by (elim conjE exE)
  have ih2: "\<And>m. m \<in> set ns \<Longrightarrow> FindInRecurrentLoops (m_recurrentInfo s1) m = None \<Longrightarrow>
            (\<exists>pre seg post. trace s' = trace s1 @ pre @ seg @ post \<and> wholeBatchGradient m seg)"
    using ih by blast
  show ?case
  proof (intro conjI ballI impI)
    show "\<exists>es. trace s' = trace s @ es"
      using t1 t2 by (intro exI[of _ "es1 @ es2"]) simp
  next
    fix m
    assume m: "m \<in> set (n # ns)" and f: "FindInRecurrentLoops (m_recurrentInfo s) m = None"
    show "\<exists>pre seg post. trace s' = trace s @ pre @ seg @ post \<and> wholeBatchGradient m seg"
    proof (cases "m = n")
      case True
      then have "wholeBatchGradient m es1" using seg f by simp
      then show ?thesis
        using t1 t2 by (intro exI[of _ "[]"] exI[of _ es1] exI[of _ es2]) simp
    next
      case False
      with m have mem: "m \<in> set ns" by simp
      have "FindInRecurrentLoops (m_recurrentInfo s1) m = None"
        using f Find_sameLoops[OF same] by simp
      from ih2[OF mem this] obtain pre seg post where
        p: "trace s' = trace s1 @ pre @ seg @ post" and w: "wholeBatchGradient m seg"
        by (elim exE conjE)
      show ?thesis
        using p w t1 by (intro exI[of _ "es1 @ pre"] exI[of _ seg] exI[of _ post]) simp
    qed
  qed
qed

lemma callNode_stale: "callNode (C\<lparr>NodeIsFuncValueOlderThanInputs := f\<rparr>) = callNode C"
  by (intro ext) (simp add: callNode_def)

lemma ComputeGradientWholeBatch_stale:
  "ComputeGradientWholeBatch (C\<lparr>NodeIsFuncValueOlderThanInputs := f\<rparr>) = ComputeGradientWholeBatch C"
  by (intro ext) (simp add: ComputeGradientWholeBatch_def callNode_stale cong: if_cong)

lemma loopGradientFrame_stale:
  "loopGradientFrame (C\<lparr>NodeIsFuncValueOlderThanInputs := f\<rparr>) = loopGradientFrame C"
  by (intro ext) (simp add: loopGradientFrame_def callNode_stale)

lemma ComputeGradientLoopFrames_stale:
  "ComputeGradientLoopFrames (C\<lparr>NodeIsFuncValueOlderThanInputs := f\<rparr>) = ComputeGradientLoopFrames C"
  by (intro ext) (simp add: ComputeGradientLoopFrames_def loopGradientFrame_stale)

lemma ComputeGradientLoop_stale:
  "ComputeGradientLoop (C\<lparr>NodeIsFuncValueOlderThanInputs := f\<rparr>) = ComputeGradientLoop C"
  by (intro ext)
     (simp add: ComputeGradientLoop_def ComputeGradientLoopFrames_stale callNode_stale
        cong: option.case_cong list.case_cong)

lemma ComputeGradientNode_stale:
  "ComputeGradientNode (C\<lparr>NodeIsFuncValueOlderThanInputs := f\<rparr>) = ComputeGradientNode C"
  by (intro ext)
     (simp add: ComputeGradientNode_def ComputeGradientLoop_stale ComputeGradientWholeBatch_stale
        split: option.splits)

text \<open>
  C9, as amended. In the whole-batch branch of \<^verbatim>\<open>ComputeGradient\<close>, a node that requests
  multi-sequence handling and claims \<^verbatim>\<open>IsPartOfLoop\<close> is fatal: once its
  \<^verbatim>\<open>OnComputeGradientBeginIteration\<close> has returned, the traversal throws
  \<open>WholeBatchOnLoopNode\<close>, and neither the masking nor \<^verbatim>\<open>ComputeGradientForChildren\<close> is
  applied to the node.
\<close>

theorem whole_batch_on_loop_node:
  assumes "FindInRecurrentLoops (m_recurrentInfo s) n = None"
    and "IsNodeReqMultiSeqHandling C n"
    and "perform C (OnComputeGradientBeginIteration n) (nodes s) = (None, st)"
    and "IsPartOfLoop C st n"
  shows "ComputeGradientNode C n s =
     (Some WholeBatchOnLoopNode, s\<lparr>nodes := st, trace := trace s @ [OnComputeGradientBeginIteration n]\<rparr>)"
  using assms
  by (simp add: ComputeGradientNode_def ComputeGradientWholeBatch_def andThen_def whenDo_def callNode_def)

lemmas grad_defs = ComputeGradient_def ComputeGradientWalk_def ComputeGradientNode_def
  ComputeGradientLoop_def ComputeGradientLoopFrames_def ComputeGradientWholeBatch_def
  loopGradientFrame_def seedRootGradient_def updateGradientValues_def GetGradientCalcOrder_def
  setCompletedGradient_def FrameRangeIteration_reverse_def callNetwork_def
  Resize_def SetValue_def SetValueMatrix_def

text \<open>
  C8 on the example: the loop of a stale \<^verbatim>\<open>Plus\<close> node and a stale \<^verbatim>\<open>PastValue\<close> node is
  older than its inputs, the stale \<^verbatim>\<open>PastValue\<close> node alone is not.
\<close>

theorem IsFuncValueOlderThanInputs_iff_witness:
  "IsFuncValueOlderThanInputs exContract exStore [4, 3] \<and>
   \<not> IsFuncValueOlderThanInputs exContract exStore [4]"
  using IsFuncValueOlderThanInputs_iff[of exContract exStore "[4, 3]"]
    IsFuncValueOlderThanInputs_iff[of exContract exStore "[4]"]
  by (simp add: exContract_def)

lemma ex_forward_frames: "fst (EvaluateLoopFrames exContract 7 2 1 [4, 3] exNetwork) = None"
  by (simp add: run_defs ex_defs upt_rec)

lemma ex_backward_frames: "fst (ComputeGradientLoopFrames exContract 7 2 1 [4, 3] exNetwork) = None"
  by (simp add: run_defs grad_defs ex_defs upt_rec)

text \<open>C6 on the example loop, with two time steps.\<close>

theorem backward_reverses_forward_witness:
  "fst (EvaluateLoopFrames exContract 7 2 1 [4, 3] exNetwork) = None \<and>
   fst (ComputeGradientLoopFrames exContract 7 2 1 [4, 3] exNetwork) = None \<and>
   gradients (callsMade exNetwork (snd (ComputeGradientLoopFrames exContract 7 2 1 [4, 3] exNetwork))) =
     [(3, Frame 7 1), (4, Frame 7 1), (3, Frame 7 0), (4, Frame 7 0)] \<and>
   evaluations (callsMade exNetwork (snd (EvaluateLoopFrames exContract 7 2 1 [4, 3] exNetwork))) =
     [(4, Frame 7 0), (3, Frame 7 0), (4, Frame 7 1), (3, Frame 7 1)]"
proof -
  have fwd: "EvaluateLoopFrames exContract 7 2 1 [4, 3] exNetwork =
      (None, snd (EvaluateLoopFrames exContract 7 2 1 [4, 3] exNetwork))"
    using ex_forward_frames by (metis prod.collapse)
  have bwd: "ComputeGradientLoopFrames exContract 7 2 1 [4, 3] exNetwork =
      (None, snd (ComputeGradientLoopFrames exContract 7 2 1 [4, 3] exNetwork))"
    using ex_backward_frames by (metis prod.collapse)
  note main = backward_reverses_forward[OF fwd bwd, of 3]
  have g: "gradients (callsMade exNetwork (snd (ComputeGradientLoopFrames exContract 7 2 1 [4, 3] exNetwork))) =
     [(3, Frame 7 1), (4, Frame 7 1), (3, Frame 7 0), (4, Frame 7 0)]"
    using main[THEN conjunct2, THEN conjunct1] by (simp add: FrameRangeIteration_def upt_rec)
  have "rev (evaluations (callsMade exNetwork (snd (EvaluateLoopFrames exContract 7 2 1 [4, 3] exNetwork)))) =
     [(3, Frame 7 1), (4, Frame 7 1), (3, Frame 7 0), (4, Frame 7 0)]"
    using main[THEN conjunct1] g by (simp only:)
  then have "rev (rev (evaluations (callsMade exNetwork (snd (EvaluateLoopFrames exContract 7 2 1 [4, 3] exNetwork))))) =
     rev [(3, Frame 7 1), (4, Frame 7 1), (3, Frame 7 0), (4, Frame 7 0)]"
    by (simp only:)
  then have e: "evaluations (callsMade exNetwork (snd (EvaluateLoopFrames exContract 7 2 1 [4, 3] exNetwork))) =
     [(4, Frame 7 0), (3, Frame 7 0), (4, Frame 7 1), (3, Frame 7 1)]"
    by simp
  show ?thesis using g e ex_forward_frames ex_backward_frames by (intro conjI)
qed

text \<open>C4 on the example network.\<close>

theorem seedRootGradient_result_witness:
  "GradientValues (nodes (snd (seedRootGradient 3 True
       (Some \<lparr>numRows = 2, numCols = 3, elems = (\<lambda>i j. 5)\<rparr>) exNetwork))) 3 =
     \<lparr>numRows = 2, numCols = 3, elems = (\<lambda>i j. (5::int))\<rparr> \<and>
   numRows (GradientValues (nodes (snd (seedRootGradient 3 True None exNetwork))) 3) = 1"
proof -
  note main = seedRootGradient_result[of 3 True None exNetwork
      "\<lparr>numRows = 2, numCols = 3, elems = (\<lambda>i j. 5)\<rparr>"]
  note a = main[THEN conjunct2, THEN conjunct1]
  note b = main[THEN conjunct2, THEN conjunct2, THEN conjunct1]
  have "numRows (GradientValues (nodes (snd (seedRootGradient 3 True None exNetwork))) 3) = 1"
    by (simp only: a Matrix.simps)
  then show ?thesis using b by (intro conjI)
qed

lemma ex_walk:
  "ComputeGradientWalk exContract [3, 4, 5] exNetwork =
     (None, exNetwork\<lparr>m_recurrentInfo := [exLoop\<lparr>m_completedGradient := True\<rparr>],
        trace := [OnComputeGradientBeginIteration 4, OnComputeGradientBeginIteration 3,
                  VerifyNumParallelSequences 3 1, ComputeGradientForChildren 3 (Frame 7 1),
                  VerifyNumParallelSequences 4 1, ComputeGradientForChildren 4 (Frame 7 1),
                  VerifyNumParallelSequences 3 1, ComputeGradientForChildren 3 (Frame 7 0),
                  VerifyNumParallelSequences 4 1, ComputeGradientForChildren 4 (Frame 7 0),
                  OnComputeGradientEndIteration 4, OnComputeGradientEndIteration 3,
                  OnComputeGradientBeginIteration 5, ComputeGradientForChildren 5 (AllFrames (Some 7)),
                  OnComputeGradientEndIteration 5]\<rparr>)"
  by (simp add: run_defs grad_defs ex_defs upt_rec)

text \<open>C9, as amended, on the example: the node requests multi-sequence handling.\<close>

theorem whole_batch_on_loop_node_witness:
  "ComputeGradientNode (exContract\<lparr>IsNodeReqMultiSeqHandling := (\<lambda>n. True)\<rparr>) 3
     (exNetwork\<lparr>m_recurrentInfo := []\<rparr>) =
     (Some WholeBatchOnLoopNode,
      exNetwork\<lparr>m_recurrentInfo := [], trace := [OnComputeGradientBeginIteration 3]\<rparr>)"
  using whole_batch_on_loop_node[where s = "exNetwork\<lparr>m_recurrentInfo := []\<rparr>" and n = 3
      and C = "exContract\<lparr>IsNodeReqMultiSeqHandling := (\<lambda>n. True)\<rparr>" and st = exStore]
  by (simp add: ex_defs)

text \<open>
  C9 as stated fails: a node of no \<^verbatim>\<open>RecurrentInfo\<close> that claims \<^verbatim>\<open>IsPartOfLoop\<close> and does
  not request multi-sequence handling goes through the whole-batch branch without an
  error, and \<^verbatim>\<open>ComputeGradientForChildren\<close> is applied to it on the whole batch.
\<close>

theorem whole_batch_on_loop_node_counterexample:
  "FindInRecurrentLoops (m_recurrentInfo (exNetwork\<lparr>m_recurrentInfo := []\<rparr>)) 3 = None \<and>
   IsPartOfLoop exContract exStore 3 \<and>
   ComputeGradientNode exContract 3 (exNetwork\<lparr>m_recurrentInfo := []\<rparr>) =
     (None, exNetwork\<lparr>m_recurrentInfo := [],
        trace := [OnComputeGradientBeginIteration 3, ComputeGradientForChildren 3 (AllFrames (Some 7)),
                  OnComputeGradientEndIteration 3]\<rparr>)"
  by (simp add: run_defs grad_defs ex_defs)

text \<open>
  C1. \<^verbatim>\<open>ComputeGradient\<close> has no statement that resets \<^verbatim>\<open>m_completedGradient\<close>. On the
  example network a first call with \<^verbatim>\<open>bClearGradient = false\<close> runs the backward pass of
  the loop and leaves the flag set; a second call, made in the state the first one left,
  returns normally and calls \<^verbatim>\<open>ComputeGradientForChildren\<close> on the node outside the loop
  only: the backward pass of the loop is not run.
\<close>

theorem ComputeGradient_second_call_skips_loop:
  "m_completedGradient
     (m_recurrentInfo (snd (ComputeGradient exContract 3 True None False False exNetwork)) ! 0) \<and>
   gradients (trace (snd (ComputeGradient exContract 3 True None False False exNetwork))) =
     [(3, Frame 7 1), (4, Frame 7 1), (3, Frame 7 0), (4, Frame 7 0), (5, AllFrames (Some 7))] \<and>
   fst (ComputeGradient exContract 3 True None False False
      ((snd (ComputeGradient exContract 3 True None False False exNetwork))\<lparr>trace := []\<rparr>)) = None \<and>
   gradients (trace (snd (ComputeGradient exContract 3 True None False False
      ((snd (ComputeGradient exContract 3 True None False False exNetwork))\<lparr>trace := []\<rparr>)))) =
     [(5, AllFrames (Some 7))]"
  by (simp add: run_defs grad_defs ex_defs upt_rec gradients_def List.map_filter_def)

lemma propagate_visited: "m_visited (nodes (propagateNeedsGradient n cs s)) = m_visited (nodes s)"
  unfolding propagateNeedsGradient_def
  by (induction cs arbitrary: s) (simp_all add: setNeedsGradient_def)

lemma propagate_built: "m_built (propagateNeedsGradient n cs s) = m_built s"
  unfolding propagateNeedsGradient_def
  by (induction cs arbitrary: s) (simp_all add: setNeedsGradient_def)

lemma propagate_trace: "trace (propagateNeedsGradient n cs s) = trace s"
  unfolding propagateNeedsGradient_def
  by (induction cs arbitrary: s) (simp_all add: setNeedsGradient_def)

lemma callNode_built: "callNode C c s = (r, s') \<Longrightarrow> m_built s' = m_built s"
  by (auto simp: callNode_def split: prod.splits)

lemma callNode_visited:
  "\<forall>c st. m_visited (snd (perform C c st)) = m_visited st \<Longrightarrow>
   callNode C c s = (r, s') \<Longrightarrow> m_visited (nodes s') = m_visited (nodes s)"
  by (auto simp: callNode_def split: prod.splits) (metis snd_conv)

text \<open>The result of the loop body on a node that is validated, when no external call throws.\<close>

lemma ValidateNode_validated:
  assumes "validated C n s"
    and "callNode C (PrintSelfBeforeValidation n) s = (None, s1)"
    and "callNode C (Validate n f) s1 = (None, s2)"
  shows "ValidateNode C f n s =
     (let s4 = propagateNeedsGradient n (GetChildren C n) (setVisited n True s2);
          unchanged = stableTuple C n s s2 s4
      in if f \<and> \<not> unchanged then (Some NonStableValidation, False, s4)
         else if f \<and> \<not> list_all (m_visited (nodes s)) (GetChildren C n)
              then (Some UnvisitedChildInFinalPass, False, s4)
         else (None, (list_all (m_visited (nodes s)) (GetChildren C n) \<and> unchanged) \<or> IsLeaf C n, s4))"
proof -
  have sv: "\<And>s4. stableTuple C n s s2 s4 = stableTuple C n s (setVisited n True s2) s4"
    by (simp add: stableTuple_def setVisited_def)
  have P: "list_ex (m_visited (nodes s)) (GetChildren C n) \<or> IsLeaf C n"
    using assms(1) by (simp only: validated_def)
  show ?thesis
    unfolding sv
    by (simp only: ValidateNode_def Let_def stableTuple_def assms(2,3) P if_True prod.case option.case)
qed

lemma ValidateNode_skipped:
  "\<not> validated C n s \<Longrightarrow> ValidateNode C f n s = (None, False, s)"
  by (simp add: ValidateNode_def validated_def Let_def)

lemma ValidateNode_print_throws:
  "validated C n s \<Longrightarrow> callNode C (PrintSelfBeforeValidation n) s = (Some e, s1) \<Longrightarrow>
   ValidateNode C f n s = (Some e, False, s1)"
  by (simp add: ValidateNode_def validated_def Let_def)

lemma ValidateNode_validate_throws:
  "validated C n s \<Longrightarrow> callNode C (PrintSelfBeforeValidation n) s = (None, s1) \<Longrightarrow>
   callNode C (Validate n f) s1 = (Some e, s2) \<Longrightarrow>
   ValidateNode C f n s = (Some e, False, s2)"
  by (simp add: ValidateNode_def validated_def Let_def)

lemma ValidateNode_final_ok:
  assumes run: "ValidateNode C True n s = (None, valid, s')"
  shows "(valid \<longrightarrow> validated C n s) \<and>
         (validated C n s \<longrightarrow> list_all (m_visited (nodes s)) (GetChildren C n) \<and>
            stableTuple C n s (afterValidate C True n s) s' \<and> valid)"
proof (cases "validated C n s")
  case False
  with run show ?thesis by (simp add: ValidateNode_skipped)
next
  case True
  obtain r1 s1 where p: "callNode C (PrintSelfBeforeValidation n) s = (r1, s1)"
    by (cases "callNode C (PrintSelfBeforeValidation n) s")
  obtain r2 s2 where v: "callNode C (Validate n True) s1 = (r2, s2)"
    by (cases "callNode C (Validate n True) s1")
  have r1: "r1 = None"
    using run ValidateNode_print_throws[OF True, of _ s1 True] p by (cases r1) auto
  have r2: "r2 = None"
    using run ValidateNode_validate_throws[OF True, of s1 True _ s2] p v r1 by (cases r2) auto
  have av: "afterValidate C True n s = s2" using p v by (simp add: afterValidate_def)
  note eq = ValidateNode_validated[OF True p[unfolded r1] v[unfolded r2]]
  show ?thesis
    using run True unfolding eq av Let_def
    by (auto split: if_splits)
qed

lemma ValidateNodesFrom_append:
  "ValidateNodesFrom C (xs @ ys) f todo s =
     (case ValidateNodesFrom C xs f todo s of
        (None, todo1, s1) \<Rightarrow> ValidateNodesFrom C ys f todo1 s1
      | (Some e, todo1, s1) \<Rightarrow> (Some e, todo1, s1))"
  by (induction xs arbitrary: todo s) (auto split: prod.splits option.splits)

lemma ValidateNodesFrom_todo:
  "ValidateNodesFrom C ns f todo s = (r, todo', s') \<Longrightarrow> todo \<le> todo'"
proof (induction ns arbitrary: todo s)
  case Nil
  then show ?case by simp
next
  case (Cons n ns)
  obtain r1 valid s1 where st: "ValidateNode C f n s = (r1, valid, s1)"
    by (cases "ValidateNode C f n s") auto
  show ?case
  proof (cases r1)
    case None
    with Cons.prems st have "ValidateNodesFrom C ns f (if valid then todo else Suc todo) s1 = (r, todo', s')"
      by simp
    from Cons.IH[OF this] show ?thesis by (simp split: if_splits)
  next
    case (Some e)
    with Cons.prems st show ?thesis by simp
  qed
qed

lemma final_pass_stable:
  assumes run: "ValidateNodes C (pre @ n # post) True s = (None, 0, s')"
  shows "\<exists>s1 s2. ValidateNodes C pre True s = (None, 0, s1) \<and>
           ValidateNode C True n s1 = (None, True, s2) \<and>
           validated C n s1 \<and>
           list_all (m_visited (nodes s1)) (GetChildren C n) \<and>
           stableTuple C n s1 (afterValidate C True n s1) s2"
proof -
  obtain r1 todo1 s1 where pre: "ValidateNodesFrom C pre True 0 s = (r1, todo1, s1)"
    by (cases "ValidateNodesFrom C pre True 0 s") auto
  have r1: "r1 = None"
    using run pre by (cases r1) (auto simp: ValidateNodes_def ValidateNodesFrom_append)
  have rest: "ValidateNodesFrom C (n # post) True todo1 s1 = (None, 0, s')"
    using run pre r1 by (simp add: ValidateNodes_def ValidateNodesFrom_append)
  have t1: "todo1 = 0" using ValidateNodesFrom_todo[OF rest] by simp
  obtain r2 valid s2 where st: "ValidateNode C True n s1 = (r2, valid, s2)"
    by (cases "ValidateNode C True n s1") auto
  have r2: "r2 = None" using rest st by (cases r2) auto
  have post: "ValidateNodesFrom C post True (if valid then todo1 else Suc todo1) s2 = (None, 0, s')"
    using rest st r2 by simp
  have valid: "valid" using ValidateNodesFrom_todo[OF post] by (cases valid) auto
  note ok = ValidateNode_final_ok[OF st[unfolded r2]]
  have "validated C n s1" using ok valid by blast
  then show ?thesis
    using ok pre r1 t1 st r2 valid
    by (intro exI[of _ s1] exI[of _ s2]) (simp add: ValidateNodes_def)
qed

lemma visitedGrows_refl: "visitedGrows s s"
  by (simp add: visitedGrows_def)

lemma visitedGrows_trans: "visitedGrows a b \<Longrightarrow> visitedGrows b c \<Longrightarrow> visitedGrows a c"
  by (simp add: visitedGrows_def)

lemma callNode_grows: "keepsVisited C \<Longrightarrow> callNode C c s = (r, s') \<Longrightarrow> visitedGrows s s'"
  using callNode_visited[of C c s r s'] by (simp add: keepsVisited_def visitedGrows_def)

lemma ValidateNode_frame:
  assumes run: "ValidateNode C f n s = (r, valid, s')"
  shows "m_built s' = m_built s \<and> (keepsVisited C \<longrightarrow> visitedGrows s s')"
proof (cases "validated C n s")
  case False
  with run show ?thesis by (simp add: ValidateNode_skipped visitedGrows_refl)
next
  case True
  obtain r1 s1 where p: "callNode C (PrintSelfBeforeValidation n) s = (r1, s1)"
    by (cases "callNode C (PrintSelfBeforeValidation n) s")
  have b1: "m_built s1 = m_built s" using callNode_built[OF p] .
  have g1: "keepsVisited C \<longrightarrow> visitedGrows s s1" using callNode_grows[OF _ p] by blast
  show ?thesis
  proof (cases r1)
    case (Some e)
    with run ValidateNode_print_throws[OF True, of _ s1 f] p have "s' = s1" by simp
    then show ?thesis using b1 g1 by simp
  next
    case None
    obtain r2 s2 where v: "callNode C (Validate n f) s1 = (r2, s2)"
      by (cases "callNode C (Validate n f) s1")
    have b2: "m_built s2 = m_built s" using callNode_built[OF v] b1 by simp
    have g2: "keepsVisited C \<longrightarrow> visitedGrows s s2"
      using callNode_grows[OF _ v] g1 visitedGrows_trans by blast
    show ?thesis
    proof (cases r2)
      case (Some e)
      with run ValidateNode_validate_throws[OF True, of s1 f _ s2] p v None have "s' = s2" by simp
      then show ?thesis using b2 g2 by simp
    next
      case r2: None
      let ?s4 = "propagateNeedsGradient n (GetChildren C n) (setVisited n True s2)"
      have "s' = ?s4"
        using run ValidateNode_validated[OF True p[unfolded None] v[unfolded r2]]
        by (auto simp: Let_def split: if_splits)
      moreover have "m_built ?s4 = m_built s" using b2 by (simp add: propagate_built setVisited_def)
      moreover have "visitedGrows s2 ?s4"
        by (simp add: visitedGrows_def propagate_visited setVisited_def)
      ultimately show ?thesis using g2 visitedGrows_trans by blast
    qed
  qed
qed

lemma ValidateNodesFrom_frame:
  "ValidateNodesFrom C ns f todo s = (r, todo', s') \<Longrightarrow>
   m_built s' = m_built s \<and> (keepsVisited C \<longrightarrow> visitedGrows s s')"
proof (induction ns arbitrary: todo s)
  case Nil
  then show ?case by (simp add: visitedGrows_refl)
next
  case (Cons n ns)
  obtain r1 valid s1 where st: "ValidateNode C f n s = (r1, valid, s1)"
    by (cases "ValidateNode C f n s") auto
  note fr = ValidateNode_frame[OF st]
  show ?case
  proof (cases r1)
    case None
    with Cons.prems st have "ValidateNodesFrom C ns f (if valid then todo else Suc todo) s1 = (r, todo', s')"
      by simp
    from Cons.IH[OF this] fr show ?thesis using visitedGrows_trans by auto
  next
    case (Some e)
    with Cons.prems st have "s' = s1" by simp
    then show ?thesis using fr by simp
  qed
qed

lemma validateLoop_frame:
  assumes run: "validateLoop C ns pass toValidate s = Some y"
  shows "m_built (snd (snd y)) = m_built s \<and> (keepsVisited C \<longrightarrow> visitedGrows s (snd (snd y)))"
proof (rule validateLoop.raw_induct[where P = "\<lambda>C ns pass toValidate s y.
      m_built (snd (snd y)) = m_built s \<and> (keepsVisited C \<longrightarrow> visitedGrows s (snd (snd y)))", OF _ run])
  fix loop :: "('a, 'b, 'c) NodeContract \<Rightarrow> nat list \<Rightarrow> nat \<Rightarrow> nat \<Rightarrow> ('a, 'b) ComputationNetwork \<Rightarrow>
      (error option \<times> nat \<times> ('a, 'b) ComputationNetwork) option"
  fix C :: "('a, 'b, 'c) NodeContract" and ns pass and toValidate :: nat and s y
  assume IH: "\<And>C ns pass toValidate s y. loop C ns pass toValidate s = Some y \<Longrightarrow>
      m_built (snd (snd y)) = m_built s \<and> (keepsVisited C \<longrightarrow> visitedGrows s (snd (snd y)))"
  assume step: "(if 0 < toValidate
      then case ValidateNodes C ns False s of
           (None, todo, s') \<Rightarrow> loop C ns (Suc pass) todo s'
         | (Some e, todo, s') \<Rightarrow> Some (Some e, Suc pass, s')
      else Some (None, pass, s)) = Some y"
  show "m_built (snd (snd y)) = m_built s \<and> (keepsVisited C \<longrightarrow> visitedGrows s (snd (snd y)))"
  proof (cases "toValidate > 0")
    case False
    with step show ?thesis by (auto simp: visitedGrows_refl)
  next
    case True
    obtain r1 todo s1 where p: "ValidateNodes C ns False s = (r1, todo, s1)"
      by (cases "ValidateNodes C ns False s") auto
    note fr = ValidateNodesFrom_frame[OF p[unfolded ValidateNodes_def]]
    show ?thesis
    proof (cases r1)
      case None
      with step True p have "loop C ns (Suc pass) todo s1 = Some y" by simp
      from IH[OF this] fr show ?thesis using visitedGrows_trans by auto
    next
      case (Some e)
      with step True p have "y = (Some e, Suc pass, s1)" by simp
      then show ?thesis using fr by simp
    qed
  qed
qed

lemma validateLoop_fuel:
  "validateLoop C ns pass toValidate s = Some res \<longleftrightarrow>
     (\<exists>k. validatePasses C ns k pass toValidate s = Some res)"
proof
  assume run: "validateLoop C ns pass toValidate s = Some res"
  show "\<exists>k. validatePasses C ns k pass toValidate s = Some res"
  proof (rule validateLoop.raw_induct[where P = "\<lambda>C ns pass toValidate s res.
      \<exists>k. validatePasses C ns k pass toValidate s = Some res", OF _ run])
    fix loop :: "('a, 'b, 'c) NodeContract \<Rightarrow> nat list \<Rightarrow> nat \<Rightarrow> nat \<Rightarrow> ('a, 'b) ComputationNetwork \<Rightarrow>
        (error option \<times> nat \<times> ('a, 'b) ComputationNetwork) option"
    fix C :: "('a, 'b, 'c) NodeContract" and ns pass and toValidate :: nat and s res
    assume IH: "\<And>C ns pass toValidate s res. loop C ns pass toValidate s = Some res \<Longrightarrow>
        \<exists>k. validatePasses C ns k pass toValidate s = Some res"
    assume step: "(if 0 < toValidate
        then case ValidateNodes C ns False s of
             (None, todo, s') \<Rightarrow> loop C ns (Suc pass) todo s'
           | (Some e, todo, s') \<Rightarrow> Some (Some e, Suc pass, s')
        else Some (None, pass, s)) = Some res"
    show "\<exists>k. validatePasses C ns k pass toValidate s = Some res"
    proof (cases "toValidate > 0")
      case False
      with step have "validatePasses C ns 0 pass toValidate s = Some res" by simp
      then show ?thesis by blast
    next
      case True
      obtain r1 todo s1 where p: "ValidateNodes C ns False s = (r1, todo, s1)"
        by (cases "ValidateNodes C ns False s") auto
      show ?thesis
      proof (cases r1)
        case None
        with step True p have "loop C ns (Suc pass) todo s1 = Some res" by simp
        from IH[OF this] obtain k where "validatePasses C ns k (Suc pass) todo s1 = Some res" by blast
        then have "validatePasses C ns (Suc k) pass toValidate s = Some res"
          using True p None by simp
        then show ?thesis by blast
      next
        case (Some e)
        with step True p have "validatePasses C ns (Suc 0) pass toValidate s = Some res" by simp
        then show ?thesis by blast
      qed
    qed
  qed
next
  assume "\<exists>k. validatePasses C ns k pass toValidate s = Some res"
  then obtain k where "validatePasses C ns k pass toValidate s = Some res" by blast
  then show "validateLoop C ns pass toValidate s = Some res"
  proof (induction k arbitrary: pass toValidate s)
    case 0
    then show ?case by (subst validateLoop.simps) (simp split: if_splits)
  next
    case (Suc k)
    show ?case
    proof (cases "toValidate > 0")
      case False
      with Suc.prems show ?thesis by (subst validateLoop.simps) simp
    next
      case True
      obtain r1 todo s1 where p: "ValidateNodes C ns False s = (r1, todo, s1)"
        by (cases "ValidateNodes C ns False s") auto
      show ?thesis
      proof (cases r1)
        case None
        with Suc.prems True p have "validatePasses C ns k (Suc pass) todo s1 = Some res" by simp
        from Suc.IH[OF this] show ?thesis using True p None by (subst validateLoop.simps) simp
      next
        case (Some e)
        with Suc.prems True p show ?thesis by (subst validateLoop.simps) simp
      qed
    qed
  qed
qed

lemma ValidateSubNetwork_None_iff:
  "ValidateSubNetwork C rootNode s = None \<longleftrightarrow>
      (\<exists>s1 s2. forEach (linkInput C) (InputNodes C rootNode) s = (None, s1) \<and>
         forEach (resetNode C) (GetEvalOrder C rootNode) s1 = (None, s2) \<and>
         validateLoop C (GetEvalOrder C rootNode) 0 (length (GetEvalOrder C rootNode)) s2 = None)"
  unfolding ValidateSubNetwork_def Let_def
  by (auto split: prod.splits option.splits if_splits)

text \<open>
  C2, as amended. The loop of non-final passes of \<^verbatim>\<open>ValidateSubNetwork\<close> returns (or
  throws) exactly when some finite number of passes ends it: a pass that leaves no node to
  redo, or a pass in which an external call throws. There is no bound on that number
  and no check for passes that make no progress. The passes never un-visit a node, as
  long as the external calls leave \<^verbatim>\<open>m_visited\<close> alone. \<^verbatim>\<open>ValidateSubNetwork\<close> fails to
  return exactly when it reaches the loop and the loop never ends.
\<close>

theorem validation_passes:
  "(validateLoop C ns pass toValidate s = Some res \<longleftrightarrow>
      (\<exists>k. validatePasses C ns k pass toValidate s = Some res)) \<and>
   (keepsVisited C \<longrightarrow> validateLoop C ns pass toValidate s = Some (r, pass', s') \<longrightarrow>
      visitedGrows s s') \<and>
   (ValidateSubNetwork C rootNode s = None \<longleftrightarrow>
      (\<exists>s1 s2. forEach (linkInput C) (InputNodes C rootNode) s = (None, s1) \<and>
         forEach (resetNode C) (GetEvalOrder C rootNode) s1 = (None, s2) \<and>
         validateLoop C (GetEvalOrder C rootNode) 0 (length (GetEvalOrder C rootNode)) s2 = None))"
proof (intro conjI impI)
  show "validateLoop C ns pass toValidate s = Some res \<longleftrightarrow>
      (\<exists>k. validatePasses C ns k pass toValidate s = Some res)"
    by (rule validateLoop_fuel)
next
  assume "keepsVisited C" "validateLoop C ns pass toValidate s = Some (r, pass', s')"
  then show "visitedGrows s s'" using validateLoop_frame[of C ns pass toValidate s "(r, pass', s')"] by simp
next
  show "ValidateSubNetwork C rootNode s = None \<longleftrightarrow>
      (\<exists>s1 s2. forEach (linkInput C) (InputNodes C rootNode) s = (None, s1) \<and>
         forEach (resetNode C) (GetEvalOrder C rootNode) s1 = (None, s2) \<and>
         validateLoop C (GetEvalOrder C rootNode) 0 (length (GetEvalOrder C rootNode)) s2 = None)"
    by (rule ValidateSubNetwork_None_iff)
qed

lemmas val_defs = ValidateNodes_def ValidateNode_def propagateNeedsGradient_def setVisited_def
  setNeedsGradient_def callNode_def Let_def

lemma forEach_built:
  assumes "\<And>x s r s'. f x s = (r, s') \<Longrightarrow> m_built s' = m_built s"
  shows "forEach f xs s = (r, s') \<Longrightarrow> m_built s' = m_built s"
proof (induction xs arbitrary: s)
  case Nil
  then show ?case by simp
next
  case (Cons x xs)
  obtain r1 s1 where st: "f x s = (r1, s1)" by (cases "f x s")
  show ?case
  proof (cases r1)
    case None
    with Cons.prems st have "forEach f xs s1 = (r, s')" by simp
    from Cons.IH[OF this] assms[OF st] show ?thesis by simp
  next
    case (Some e)
    with Cons.prems st have "s' = s1" by simp
    then show ?thesis using assms[OF st] by simp
  qed
qed

lemma linkInput_built: "linkInput C n s = (r, s') \<Longrightarrow> m_built s' = m_built s"
  unfolding linkInput_def andThen_def
  by (auto split: prod.splits option.splits if_splits dest: callNode_built)

lemma resetNode_built: "resetNode C n s = (r, s') \<Longrightarrow> m_built s' = m_built s"
  by (auto simp: resetNode_def setVisited_def setNeedsGradient_def)

lemma checkNonZero_built: "checkNonZero C n s = (r, s') \<Longrightarrow> m_built s' = m_built s"
  by (auto simp: checkNonZero_def split: if_splits)

lemma ValidateSubNetwork_built:
  assumes run: "ValidateSubNetwork C rootNode s = Some (r, pass, s')"
  shows "m_built s' = m_built s"
proof -
  let ?ns = "GetEvalOrder C rootNode"
  obtain r1 s1 where a: "forEach (linkInput C) (InputNodes C rootNode) s = (r1, s1)"
    by (cases "forEach (linkInput C) (InputNodes C rootNode) s")
  have b1: "m_built s1 = m_built s" using forEach_built[OF linkInput_built a] .
  show ?thesis
  proof (cases r1)
    case (Some e)
    with run a have "s' = s1" by (simp add: ValidateSubNetwork_def)
    then show ?thesis using b1 by simp
  next
    case None
    obtain r2 s2 where b: "forEach (resetNode C) ?ns s1 = (r2, s2)"
      by (cases "forEach (resetNode C) ?ns s1")
    have b2: "m_built s2 = m_built s" using forEach_built[OF resetNode_built b] b1 by simp
    show ?thesis
    proof (cases r2)
      case (Some e)
      with run a b None have "s' = s2" by (simp add: ValidateSubNetwork_def)
      then show ?thesis using b2 by simp
    next
      case r2: None
      from run a b None r2 obtain r3 p3 s3 where c: "validateLoop C ?ns 0 (length ?ns) s2 = Some (r3, p3, s3)"
        by (cases "validateLoop C ?ns 0 (length ?ns) s2") (auto simp: ValidateSubNetwork_def)
      have b3: "m_built s3 = m_built s" using validateLoop_frame[OF c] b2 by simp
      show ?thesis
      proof (cases r3)
        case (Some e)
        with run a b c None r2 have "s' = s3" by (simp add: ValidateSubNetwork_def)
        then show ?thesis using b3 by simp
      next
        case r3: None
        obtain r4 t4 s4 where d: "ValidateNodes C ?ns True s3 = (r4, t4, s4)"
          by (cases "ValidateNodes C ?ns True s3") auto
        have b4: "m_built s4 = m_built s"
          using ValidateNodesFrom_frame[OF d[unfolded ValidateNodes_def]] b3 by simp
        show ?thesis
        proof (cases "r4 = None \<and> t4 = 0")
          case False
          with run a b c d None r2 r3 have "s' = s4"
            by (cases r4) (auto simp: ValidateSubNetwork_def split: if_splits)
          then show ?thesis using b4 by simp
        next
          case True
          obtain r5 s5 where e: "forEach (checkNonZero C) ?ns s4 = (r5, s5)"
            by (cases "forEach (checkNonZero C) ?ns s4")
          with run a b c d None r2 r3 True have "s' = s5" by (simp add: ValidateSubNetwork_def)
          then show ?thesis using forEach_built[OF checkNonZero_built e] b4 by simp
        qed
      qed
    qed
  qed
qed

lemma callNetwork_built: "callNetwork c h s = (r, s') \<Longrightarrow> m_built s' = m_built s"
  by (auto simp: callNetwork_def split: prod.splits)

text \<open>
  C5, as amended. \<^verbatim>\<open>BuildAndValidateSubNetwork(root)\<close> returns at once, with no effect, when
  the root is in the build cache. Otherwise it inserts the root into the cache first and
  then runs \<^verbatim>\<open>FormRecurrentLoops\<close>, \<^verbatim>\<open>CollectInputAndLearnableParameters\<close> and
  \<^verbatim>\<open>ValidateSubNetwork\<close> in this order, stopping at the first that throws: the root is in
  the cache when validation starts, and it is in the cache whenever the call returns or
  throws.
\<close>

theorem BuildAndValidateSubNetwork_cache:
  "(rootNode \<in> m_built s \<longrightarrow> BuildAndValidateSubNetwork C rootNode s = Some (None, s)) \<and>
   (BuildAndValidateSubNetwork C rootNode s = Some (r, s') \<longrightarrow>
      m_built s' = insert rootNode (m_built s) \<and> BuiltAndValidatedSubNetwork rootNode s') \<and>
   (rootNode \<notin> m_built s \<longrightarrow> BuildAndValidateSubNetwork C rootNode s = Some (None, s') \<longrightarrow>
      (\<exists>s1 s2 pass.
         callNetwork (FormRecurrentLoops rootNode) (formRecurrentLoops C rootNode)
           (s\<lparr>m_built := insert rootNode (m_built s)\<rparr>) = (None, s1) \<and>
         callNode C (CollectInputAndLearnableParameters rootNode) s1 = (None, s2) \<and>
         BuiltAndValidatedSubNetwork rootNode s2 \<and>
         ValidateSubNetwork C rootNode s2 = Some (None, pass, s')))"
proof (intro conjI impI)
  assume "rootNode \<in> m_built s"
  then show "BuildAndValidateSubNetwork C rootNode s = Some (None, s)"
    by (simp add: BuildAndValidateSubNetwork_def insert_absorb)
next
  let ?s0 = "s\<lparr>m_built := insert rootNode (m_built s)\<rparr>"
  assume run: "BuildAndValidateSubNetwork C rootNode s = Some (r, s')"
  have "m_built s' = insert rootNode (m_built s)"
  proof (cases "rootNode \<in> m_built s")
    case True
    with run show ?thesis by (auto simp: BuildAndValidateSubNetwork_def insert_absorb)
  next
    case False
    obtain r1 s1 where a: "callNetwork (FormRecurrentLoops rootNode) (formRecurrentLoops C rootNode) ?s0 = (r1, s1)"
      by (cases "callNetwork (FormRecurrentLoops rootNode) (formRecurrentLoops C rootNode) ?s0")
    have b1: "m_built s1 = insert rootNode (m_built s)" using callNetwork_built[OF a] by simp
    show ?thesis
    proof (cases r1)
      case (Some e)
      with run a False have "s' = s1" by (simp add: BuildAndValidateSubNetwork_def)
      then show ?thesis using b1 by simp
    next
      case None
      obtain r2 s2 where b: "callNode C (CollectInputAndLearnableParameters rootNode) s1 = (r2, s2)"
        by (cases "callNode C (CollectInputAndLearnableParameters rootNode) s1")
      have b2: "m_built s2 = insert rootNode (m_built s)" using callNode_built[OF b] b1 by simp
      show ?thesis
      proof (cases r2)
        case (Some e)
        with run a b None False have "s' = s2" by (simp add: BuildAndValidateSubNetwork_def)
        then show ?thesis using b2 by simp
      next
        case r2: None
        from run a b None r2 False obtain pass where
          "ValidateSubNetwork C rootNode s2 = Some (r, pass, s')"
          by (cases "ValidateSubNetwork C rootNode s2") (auto simp: BuildAndValidateSubNetwork_def)
        from ValidateSubNetwork_built[OF this] show ?thesis using b2 by simp
      qed
    qed
  qed
  then show "m_built s' = insert rootNode (m_built s)"
    and "BuiltAndValidatedSubNetwork rootNode s'"
    by (simp_all add: BuiltAndValidatedSubNetwork_def)
next
  let ?s0 = "s\<lparr>m_built := insert rootNode (m_built s)\<rparr>"
  assume new: "rootNode \<notin> m_built s"
    and run: "BuildAndValidateSubNetwork C rootNode s = Some (None, s')"
  obtain r1 s1 where a: "callNetwork (FormRecurrentLoops rootNode) (formRecurrentLoops C rootNode) ?s0 = (r1, s1)"
    by (cases "callNetwork (FormRecurrentLoops rootNode) (formRecurrentLoops C rootNode) ?s0")
  have r1: "r1 = None" using run a new by (cases r1) (auto simp: BuildAndValidateSubNetwork_def)
  obtain r2 s2 where b: "callNode C (CollectInputAndLearnableParameters rootNode) s1 = (r2, s2)"
    by (cases "callNode C (CollectInputAndLearnableParameters rootNode) s1")
  have r2: "r2 = None" using run a b r1 new by (cases r2) (auto simp: BuildAndValidateSubNetwork_def)
  from run a b r1 r2 new obtain pass where v: "ValidateSubNetwork C rootNode s2 = Some (None, pass, s')"
    by (cases "ValidateSubNetwork C rootNode s2") (auto simp: BuildAndValidateSubNetwork_def)
  have "m_built s2 = insert rootNode (m_built s)"
    using callNode_built[OF b] callNetwork_built[OF a] by simp
  then have "BuiltAndValidatedSubNetwork rootNode s2" by (simp add: BuiltAndValidatedSubNetwork_def)
  then show "\<exists>s1 s2 pass.
         callNetwork (FormRecurrentLoops rootNode) (formRecurrentLoops C rootNode) ?s0 = (None, s1) \<and>
         callNode C (CollectInputAndLearnableParameters rootNode) s1 = (None, s2) \<and>
         BuiltAndValidatedSubNetwork rootNode s2 \<and>
         ValidateSubNetwork C rootNode s2 = Some (None, pass, s')"
    using a b r1 r2 v by (intro exI[of _ s1] exI[of _ s2] exI[of _ pass]) simp
qed

lemma validateLoop_by_fuel:
  "validatePasses C ns k pass toValidate s = Some res \<Longrightarrow> validateLoop C ns pass toValidate s = Some res"
  using validateLoop_fuel by blast

lemma growing_pass:
  "fst (ValidateNodes growingContract [5, 4, 3] False s) = None \<and>
   0 < fst (snd (ValidateNodes growingContract [5, 4, 3] False s))"
  by (simp add: val_defs growingContract_def exContract_def split: prod.splits)

lemma growing_loops:
  assumes run: "validateLoop C ns pass toValidate s = Some y"
  shows "C = growingContract \<longrightarrow> ns = [5, 4, 3] \<longrightarrow> 0 < toValidate \<longrightarrow> False"
proof (rule validateLoop.raw_induct[where P = "\<lambda>C ns pass toValidate s y.
      C = growingContract \<longrightarrow> ns = [5, 4, 3] \<longrightarrow> 0 < toValidate \<longrightarrow> False", OF _ run])
  fix loop :: "(int, nat, unit) NodeContract \<Rightarrow> nat list \<Rightarrow> nat \<Rightarrow> nat \<Rightarrow> (int, nat) ComputationNetwork \<Rightarrow>
      (error option \<times> nat \<times> (int, nat) ComputationNetwork) option"
  fix C :: "(int, nat, unit) NodeContract" and ns pass and toValidate :: nat and s y
  assume IH: "\<And>C ns pass toValidate s y. loop C ns pass toValidate s = Some y \<Longrightarrow>
      C = growingContract \<longrightarrow> ns = [5, 4, 3] \<longrightarrow> 0 < toValidate \<longrightarrow> False"
  assume step: "(if 0 < toValidate
      then case ValidateNodes C ns False s of
           (None, todo, s') \<Rightarrow> loop C ns (Suc pass) todo s'
         | (Some e, todo, s') \<Rightarrow> Some (Some e, Suc pass, s')
      else Some (None, pass, s)) = Some y"
  show "C = growingContract \<longrightarrow> ns = [5, 4, 3] \<longrightarrow> 0 < toValidate \<longrightarrow> False"
  proof (intro impI)
    assume c: "C = growingContract" and n: "ns = [5, 4, 3]" and t: "0 < toValidate"
    obtain r1 todo s1 where p: "ValidateNodes growingContract [5, 4, 3] False s = (r1, todo, s1)"
      by (cases "ValidateNodes growingContract [5, 4, 3] False s") auto
    have "r1 = None" "0 < todo" using growing_pass[of s] p by simp_all
    with step c n t p have "loop growingContract [5, 4, 3] (Suc pass) todo s1 = Some y" by simp
    from IH[OF this] \<open>0 < todo\<close> show False by simp
  qed
qed

lemma growing_never_returns:
  "0 < toValidate \<Longrightarrow> validateLoop growingContract [5, 4, 3] pass toValidate s = None"
  using growing_loops[of growingContract "[5, 4, 3]" pass toValidate s]
  by (cases "validateLoop growingContract [5, 4, 3] pass toValidate s") auto

text \<open>
  C2 as stated fails: with a node whose \<^verbatim>\<open>Validate\<close> changes its dimensions at every call,
  every non-final pass leaves a node to redo, and \<^verbatim>\<open>ValidateSubNetwork\<close> never returns.
\<close>

theorem ValidateSubNetwork_counterexample:
  "ValidateSubNetwork growingContract 3 exNetwork = None"
proof -
  have a: "GetEvalOrder growingContract 3 = [5, 4, 3]" "InputNodes growingContract 3 = [5]"
    by (simp_all add: growingContract_def exContract_def)
  obtain s1 where l: "forEach (linkInput growingContract) [5] exNetwork = (None, s1)"
    by (simp add: linkInput_def andThen_def callNode_def growingContract_def exContract_def)
  obtain s2 where r: "forEach (resetNode growingContract) [5, 4, 3] s1 = (None, s2)"
    by (simp add: resetNode_def)
  have "validateLoop growingContract [5, 4, 3] 0 (length [5, 4, 3::nat]) s2 = None"
    by (rule growing_never_returns) simp
  then have "\<exists>s1 s2. forEach (linkInput growingContract) (InputNodes growingContract 3) exNetwork = (None, s1) \<and>
         forEach (resetNode growingContract) (GetEvalOrder growingContract 3) s1 = (None, s2) \<and>
         validateLoop growingContract (GetEvalOrder growingContract 3) 0
           (length (GetEvalOrder growingContract 3)) s2 = None"
    unfolding a using l r by (intro exI[of _ s1] exI[of _ s2] conjI)
  then show ?thesis by (simp only: ValidateSubNetwork_None_iff)
qed

lemma ex_keepsVisited: "keepsVisited exContract"
  by (simp add: keepsVisited_def exContract_def)

lemma ex_passes:
  "\<exists>s'. validatePasses exContract [5, 4, 3] 2 0 3 exNetwork = Some (None, 2, s') \<and>
        m_visited (nodes s') 4"
  by (simp add: val_defs ex_defs numeral_2_eq_2)

text \<open>
  C2, as amended, on the example network: two non-final passes leave no node to redo; the
  loop returns after them, and the node visited in the second pass is visited at the end.
\<close>

theorem validation_passes_witness:
  "keepsVisited exContract \<and>
   (\<exists>s'. validateLoop exContract [5, 4, 3] 0 3 exNetwork = Some (None, 2, s') \<and>
         visitedGrows exNetwork s' \<and> m_visited (nodes s') 4)"
proof -
  from ex_passes obtain s' where
    f: "validatePasses exContract [5, 4, 3] 2 0 3 exNetwork = Some (None, 2, s')"
    and v: "m_visited (nodes s') 4" by blast
  note main = validation_passes[where C = exContract and ns = "[5, 4, 3]" and pass = 0
      and toValidate = 3 and s = exNetwork and res = "(None, 2, s')" and r = None and pass' = 2
      and s' = s' and rootNode = 3]
  have l: "validateLoop exContract [5, 4, 3] 0 3 exNetwork = Some (None, 2, s')"
    using main[THEN conjunct1] f by blast
  have g: "visitedGrows exNetwork s'"
    using main[THEN conjunct2, THEN conjunct1] ex_keepsVisited l by blast
  show ?thesis using ex_keepsVisited l g v by blast
qed

lemma dim_validate:
  "\<exists>s'. ValidateSubNetwork (dimContract d) 3 (exNetwork\<lparr>trace := tr\<rparr>) =
         Some (if fst d = 0 then Some ZeroDimension else None, 2, s')"
proof -
  let ?C = "dimContract d"
  have a: "GetEvalOrder ?C 3 = [5, 4, 3]" "InputNodes ?C 3 = [5]"
    by (simp_all add: dimContract_def exContract_def)
  obtain s1 where l: "forEach (linkInput ?C) [5] (exNetwork\<lparr>trace := tr\<rparr>) = (None, s1)"
    and s1: "s1 = exNetwork\<lparr>trace := tr @ [LinkToMBLayout 5 7]\<rparr>"
    by (simp add: linkInput_def andThen_def callNode_def dimContract_def ex_defs)
  obtain s2 where r: "forEach (resetNode ?C) [5, 4, 3] s1 = (None, s2)"
    and s2: "s2 = exNetwork\<lparr>trace := tr @ [LinkToMBLayout 5 7]\<rparr>"
    unfolding s1
    by (simp add: resetNode_def setVisited_def setNeedsGradient_def dimContract_def ex_defs fun_upd_idem)
  have "\<exists>s3. validatePasses ?C [5, 4, 3] 2 0 3 s2 = Some (None, 2, s3) \<and>
          (\<exists>s4. ValidateNodes ?C [5, 4, 3] True s3 = (None, 0, s4) \<and>
             fst (forEach (checkNonZero ?C) [5, 4, 3] s4) =
               (if fst d = 0 then Some ZeroDimension else None))"
    unfolding s2 by (simp add: val_defs dimContract_def ex_defs checkNonZero_def numeral_2_eq_2)
  then obtain s3 s4 where p: "validatePasses ?C [5, 4, 3] 2 0 3 s2 = Some (None, 2, s3)"
    and f: "ValidateNodes ?C [5, 4, 3] True s3 = (None, 0, s4)"
    and z: "fst (forEach (checkNonZero ?C) [5, 4, 3] s4) =
               (if fst d = 0 then Some ZeroDimension else None)" by blast
  have loop: "validateLoop ?C [5, 4, 3] 0 (length [5, 4, 3::nat]) s2 = Some (None, 2, s3)"
  proof -
    have "length [5, 4, 3::nat] = 3" by simp
    then show ?thesis using validateLoop_by_fuel[OF p] by (simp only:)
  qed
  obtain s5 where z5: "forEach (checkNonZero ?C) [5, 4, 3] s4 =
      (if fst d = 0 then Some ZeroDimension else None, s5)"
    using z by (cases "forEach (checkNonZero ?C) [5, 4, 3] s4") auto
  have "ValidateSubNetwork ?C 3 (exNetwork\<lparr>trace := tr\<rparr>) =
      Some (if fst d = 0 then Some ZeroDimension else None, 2, s5)"
    by (simp only: ValidateSubNetwork_def a Let_def l r loop f z5 prod.case option.case
        if_False simp_thms)
  then show ?thesis by blast
qed

lemma dim_build:
  "\<exists>s'. BuildAndValidateSubNetwork (dimContract d) 3 (exNetwork\<lparr>m_built := {}\<rparr>) =
         Some (if fst d = 0 then Some ZeroDimension else None, s')"
proof -
  let ?C = "dimContract d"
  let ?s2 = "exNetwork\<lparr>trace := [FormRecurrentLoops 3, CollectInputAndLearnableParameters 3]\<rparr>"
  have s0: "exNetwork\<lparr>m_built := {}\<rparr>\<lparr>m_built := insert 3 (m_built (exNetwork\<lparr>m_built := {}\<rparr>))\<rparr> = exNetwork"
    by (simp add: exNetwork_def)
  have a: "callNetwork (FormRecurrentLoops 3) (formRecurrentLoops ?C 3) exNetwork =
      (None, exNetwork\<lparr>trace := [FormRecurrentLoops 3]\<rparr>)"
    by (simp add: callNetwork_def dimContract_def ex_defs)
  have b: "callNode ?C (CollectInputAndLearnableParameters 3) (exNetwork\<lparr>trace := [FormRecurrentLoops 3]\<rparr>) =
      (None, ?s2)"
    by (simp add: callNode_def dimContract_def ex_defs)
  from dim_validate[of d "[FormRecurrentLoops 3, CollectInputAndLearnableParameters 3]"]
  obtain s' where v: "ValidateSubNetwork ?C 3 ?s2 =
      Some (if fst d = 0 then Some ZeroDimension else None, 2, s')" by blast
  have new: "3 \<notin> m_built (exNetwork\<lparr>m_built := {}\<rparr>)" by simp
  have "BuildAndValidateSubNetwork ?C 3 (exNetwork\<lparr>m_built := {}\<rparr>) =
      Some (if fst d = 0 then Some ZeroDimension else None, s')"
    by (simp only: BuildAndValidateSubNetwork_def Let_def new s0 a b v prod.case option.case
        if_False simp_thms)
  then show ?thesis by blast
qed

text \<open>
  C5 as stated fails: when \<^verbatim>\<open>ValidateSubNetwork\<close> throws (here a node has zero rows), the
  root is in the build cache all the same, so \<^verbatim>\<open>BuiltAndValidatedSubNetwork(root)\<close> is
  true although validation has not completed.
\<close>

theorem BuildAndValidateSubNetwork_counterexample:
  "\<exists>s'. BuildAndValidateSubNetwork (dimContract (0, 3)) 3 (exNetwork\<lparr>m_built := {}\<rparr>) =
         Some (Some ZeroDimension, s') \<and>
       BuiltAndValidatedSubNetwork 3 s' \<and>
       \<not> BuiltAndValidatedSubNetwork 3 (exNetwork\<lparr>m_built := {}\<rparr>)"
proof -
  from dim_build[of "(0, 3)"] obtain s' where
    run: "BuildAndValidateSubNetwork (dimContract (0, 3)) 3 (exNetwork\<lparr>m_built := {}\<rparr>) =
         Some (Some ZeroDimension, s')" by auto
  obtain pass where v: "ValidateSubNetwork (dimContract (0, 3)) 3
      (exNetwork\<lparr>trace := [FormRecurrentLoops 3, CollectInputAndLearnableParameters 3]\<rparr>) =
      Some (Some ZeroDimension, pass, s')"
  proof -
    have s0: "exNetwork\<lparr>m_built := {}\<rparr>\<lparr>m_built := insert 3 (m_built (exNetwork\<lparr>m_built := {}\<rparr>))\<rparr> = exNetwork"
      by (simp add: exNetwork_def)
    have a: "callNetwork (FormRecurrentLoops 3) (formRecurrentLoops (dimContract (0, 3)) 3) exNetwork =
        (None, exNetwork\<lparr>trace := [FormRecurrentLoops 3]\<rparr>)"
      by (simp add: callNetwork_def dimContract_def ex_defs)
    have b: "callNode (dimContract (0, 3)) (CollectInputAndLearnableParameters 3)
        (exNetwork\<lparr>trace := [FormRecurrentLoops 3]\<rparr>) =
        (None, exNetwork\<lparr>trace := [FormRecurrentLoops 3, CollectInputAndLearnableParameters 3]\<rparr>)"
      by (simp add: callNode_def dimContract_def ex_defs)
    have new: "3 \<notin> m_built (exNetwork\<lparr>m_built := {}\<rparr>)" by simp
    from run have "(case ValidateSubNetwork (dimContract (0, 3)) 3
        (exNetwork\<lparr>trace := [FormRecurrentLoops 3, CollectInputAndLearnableParameters 3]\<rparr>) of
          None \<Rightarrow> None | Some (r, pass, s3) \<Rightarrow> Some (r, s3)) = Some (Some ZeroDimension, s')"
      by (simp only: BuildAndValidateSubNetwork_def Let_def new s0 a b prod.case option.case
          if_False simp_thms)
    then show ?thesis using that by (auto split: option.splits)
  qed
  have "m_built s' = {3}"
    using ValidateSubNetwork_built[OF v] by (simp add: exNetwork_def)
  then show ?thesis using run by (simp add: BuiltAndValidatedSubNetwork_def)
qed

text \<open>C5, as amended, on the example network, for a root that is not in the cache.\<close>

theorem BuildAndValidateSubNetwork_cache_witness:
  "3 \<notin> m_built (exNetwork\<lparr>m_built := {}\<rparr>) \<and>
   (\<exists>s'. BuildAndValidateSubNetwork (dimContract (2, 3)) 3 (exNetwork\<lparr>m_built := {}\<rparr>) = Some (None, s') \<and>
      BuiltAndValidatedSubNetwork 3 s' \<and>
      BuildAndValidateSubNetwork (dimContract (2, 3)) 3 s' = Some (None, s') \<and>
      (\<exists>s2 pass. BuiltAndValidatedSubNetwork 3 s2 \<and>
         ValidateSubNetwork (dimContract (2, 3)) 3 s2 = Some (None, pass, s')))"
proof -
  from dim_build[of "(2, 3)"] obtain s' where
    run: "BuildAndValidateSubNetwork (dimContract (2, 3)) 3 (exNetwork\<lparr>m_built := {}\<rparr>) = Some (None, s')"
    by auto
  have new: "3 \<notin> m_built (exNetwork\<lparr>m_built := {}\<rparr>)" by simp
  note main = BuildAndValidateSubNetwork_cache[where C = "dimContract (2, 3)" and rootNode = 3
      and s = "exNetwork\<lparr>m_built := {}\<rparr>" and r = None and s' = s']
  have b: "BuiltAndValidatedSubNetwork 3 s'" using main[THEN conjunct2, THEN conjunct1] run by blast
  have again: "BuildAndValidateSubNetwork (dimContract (2, 3)) 3 s' = Some (None, s')"
    using BuildAndValidateSubNetwork_cache[where C = "dimContract (2, 3)" and rootNode = 3 and s = s',
        THEN conjunct1] b by (simp add: BuiltAndValidatedSubNetwork_def)
  from main[THEN conjunct2, THEN conjunct2] new run
  have "\<exists>s2 pass. BuiltAndValidatedSubNetwork 3 s2 \<and>
         ValidateSubNetwork (dimContract (2, 3)) 3 s2 = Some (None, pass, s')" by blast
  then show ?thesis using new run b again by blast
qed

text \<open>
  C7 as stated fails for \<^verbatim>\<open>m_needsGradient\<close>, which is read after \<^verbatim>\<open>Validate(true)\<close>, not
  before: a node whose \<^verbatim>\<open>Validate\<close> sets the flag goes through the final pass with no
  error, although the flag differs before and after.
\<close>

theorem final_validation_pass_counterexample:
  "\<exists>s'. ValidateNodes flagContract [5] True exNetwork = (None, 0, s') \<and>
        \<not> m_needsGradient (nodes exNetwork) 5 \<and> m_needsGradient (nodes s') 5"
  by (simp add: val_defs flagContract_def ex_defs)

lemma ex_final_pass: "\<exists>s'. ValidateNodes exContract ([5] @ 4 # [3]) True exVisited = (None, 0, s')"
  by (simp add: val_defs exVisited_def ex_defs)

lemma andThen_None:
  assumes "andThen f g s = (None, s')"
  shows "\<exists>s1. f s = (None, s1) \<and> g s1 = (None, s')"
  using assms by (auto simp: andThen_def split: prod.splits option.splits)

lemma emits_None:
  assumes "emits f P {full}" "f s = (None, s')"
  obtains es where "trace s' = trace s @ es" "filter P es = full"
    "m_recurrentInfo s' = m_recurrentInfo s"
  using emitsD[OF assms] by auto

lemma emits_loopBegins:
  "emits (forEach (loopBegin C p) ns) forwardEvent {map OnEvaluateBeginIteration ns}"
proof -
  have "emits (forEach (loopBegin C p) ns) forwardEvent
      {concat (map (\<lambda>n. [OnEvaluateBeginIteration n]) ns)}"
    by (rule emits_forEach) (rule emits_loopBegin)
  then show ?thesis by (simp add: concat_map_singleton)
qed

lemma emits_loopValidates:
  "emits (forEach (\<lambda>node2. callNode C (Validate node2 True)) ns) forwardEvent {[]}"
  by (rule emits_silent_forEach) (simp add: forwardEvent_def)

lemma emits_loopEnds:
  "emits (forEach (\<lambda>node2. callNode C (OnEvaluateEndIteration node2)) ns) forwardEvent {[]}"
  by (rule emits_silent_forEach) (simp add: forwardEvent_def)

lemma EvaluateLoop_success:
  assumes "EvaluateLoop C i s = (None, s')"
  shows "\<exists>es. trace s' = trace s @ es \<and> loopRun C (m_recurrentInfo s ! i) es \<and>
     m_recurrentInfo s' =
       (m_recurrentInfo s)[i := (m_recurrentInfo s ! i)\<lparr>m_completedEvaluate := True\<rparr>]"
proof (cases "m_recurrentNodesForForward (m_recurrentInfo s ! i)")
  case Nil
  with assms show ?thesis by (simp add: EvaluateLoop_split)
next
  case (Cons first rest)
  let ?ns = "m_recurrentNodesForForward (m_recurrentInfo s ! i)"
  let ?dir = "m_steppingDirection (m_recurrentInfo s ! i)"
  let ?p = "GetMBLayout C (nodes s) first"
  let ?A = "forEach (loopBegin C ?p) ?ns"
  let ?B = "forEach (\<lambda>node2. callNode C (Validate node2 True)) ?ns"
  let ?Cc = "\<lambda>s1. case ?p of None \<Rightarrow> (Some InvalidAccess, s1)
      | Some lay \<Rightarrow> EvaluateLoopFrames C lay (GetNumTimeSteps C (nodes s1) lay) ?dir ?ns s1"
  let ?D = "forEach (\<lambda>node2. callNode C (OnEvaluateEndIteration node2)) ?ns"
  have run: "andThen (andThen ?A (andThen ?B (andThen ?Cc ?D)))
      (\<lambda>s2. (None, setCompletedEvaluate i True s2)) s = (None, s')"
    using assms Cons by (simp add: EvaluateLoop_split)
  from andThen_None[OF run] obtain s4 where
    body: "andThen ?A (andThen ?B (andThen ?Cc ?D)) s = (None, s4)"
    and fin: "(None, setCompletedEvaluate i True s4) = (None, s')"
    by blast
  from andThen_None[OF body] obtain s1 where a: "?A s = (None, s1)"
    and body1: "andThen ?B (andThen ?Cc ?D) s1 = (None, s4)"
    by blast
  from andThen_None[OF body1] obtain s2 where b: "?B s1 = (None, s2)"
    and body2: "andThen ?Cc ?D s2 = (None, s4)"
    by blast
  from andThen_None[OF body2] obtain s3 where c: "?Cc s2 = (None, s3)" and d: "?D s3 = (None, s4)"
    by blast
  from c obtain lay where lay: "?p = Some lay"
    and fr: "EvaluateLoopFrames C lay (GetNumTimeSteps C (nodes s2) lay) ?dir ?ns s2 = (None, s3)"
    by (cases ?p) auto
  let ?T = "GetNumTimeSteps C (nodes s2) lay"
  from emits_loopBegins a obtain e1 where
    e1: "trace s1 = trace s @ e1" "filter forwardEvent e1 = map OnEvaluateBeginIteration ?ns"
      "m_recurrentInfo s1 = m_recurrentInfo s"
    by (rule emits_None)
  from emits_loopValidates b obtain e2 where
    e2: "trace s2 = trace s1 @ e2" "filter forwardEvent e2 = []"
      "m_recurrentInfo s2 = m_recurrentInfo s1"
    by (rule emits_None)
  from emits_frames fr obtain e3 where
    e3: "trace s3 = trace s2 @ e3"
      "filter forwardEvent e3 = frameEvents ?ns lay (FrameRangeIteration ?T ?dir)"
      "m_recurrentInfo s3 = m_recurrentInfo s2"
    by (rule emits_None)
  from emits_loopEnds d obtain e4 where
    e4: "trace s4 = trace s3 @ e4" "filter forwardEvent e4 = []"
      "m_recurrentInfo s4 = m_recurrentInfo s3"
    by (rule emits_None)
  have s': "s' = setCompletedEvaluate i True s4" using fin by simp
  have tr: "trace s' = trace s @ (e1 @ e2 @ e3 @ e4)"
    using e1(1) e2(1) e3(1) e4(1) s' by (simp add: setCompletedEvaluate_def)
  have fl: "filter forwardEvent (e1 @ e2 @ e3 @ e4) =
      loopEvents ?ns lay (FrameRangeIteration ?T ?dir)"
    using e1(2) e2(2) e3(2) e4(2) by (simp add: loopEvents_frameEvents)
  have hd: "hd ?ns = first" using Cons by simp
  have lr: "loopRun C (m_recurrentInfo s ! i) (e1 @ e2 @ e3 @ e4)"
    unfolding loopRun_def
    by (intro exI[of _ lay] exI[of _ "nodes s"] exI[of _ "nodes s2"] conjI)
       (simp_all only: hd lay fl)
  have ri: "m_recurrentInfo s' =
       (m_recurrentInfo s)[i := (m_recurrentInfo s ! i)\<lparr>m_completedEvaluate := True\<rparr>]"
    using e1(3) e2(3) e3(3) e4(3) s' by (simp add: setCompletedEvaluate_def)
  show ?thesis using tr lr ri by (intro exI[of _ "e1 @ e2 @ e3 @ e4"] conjI)
qed

text \<open>
  What one step of the traversal of \<^verbatim>\<open>Evaluate\<close> does to the loops: either it leaves them
  alone, and then, if it returned normally on a member of a loop that was older than its
  inputs, that loop was completed before; or it ran the loop of the node, which was not
  completed, to its end and set the flag of that loop.
\<close>

lemma EvaluateNode_effect:
  assumes "EvaluateNode C n s = (r, s')"
  shows "\<exists>es. trace s' = trace s @ es \<and>
     ((m_recurrentInfo s' = m_recurrentInfo s \<and>
        (r = None \<longrightarrow> (\<forall>i. FindInRecurrentLoops (m_recurrentInfo s) n = Some i \<longrightarrow>
           IsFuncValueOlderThanInputs C (nodes s) (m_recurrentNodesForForward (m_recurrentInfo s ! i)) \<longrightarrow>
           m_completedEvaluate (m_recurrentInfo s ! i)))) \<or>
      (\<exists>i. FindInRecurrentLoops (m_recurrentInfo s) n = Some i \<and>
         \<not> m_completedEvaluate (m_recurrentInfo s ! i) \<and>
         loopRun C (m_recurrentInfo s ! i) es \<and> r = None \<and>
         m_recurrentInfo s' =
           (m_recurrentInfo s)[i := (m_recurrentInfo s ! i)\<lparr>m_completedEvaluate := True\<rparr>]))"
proof (cases "FindInRecurrentLoops (m_recurrentInfo s) n")
  case None
  show ?thesis
  proof (cases "NodeIsFuncValueOlderThanInputs C (nodes s) n")
    case True
    with None assms have "EvaluateWholeBatch C n s = (r, s')" by (simp add: EvaluateNode_def)
    from emits_EvaluateWholeBatch this obtain es full where
      "trace s' = trace s @ es" "m_recurrentInfo s' = m_recurrentInfo s"
      by (rule emitsE)
    then show ?thesis using None by (intro exI[of _ es]) simp
  next
    case False
    with None assms have "callNode C (OnEvaluateEndIteration n) s = (r, s')"
      by (simp add: EvaluateNode_def)
    from emits_EndOnly this obtain es full where
      "trace s' = trace s @ es" "m_recurrentInfo s' = m_recurrentInfo s"
      by (rule emitsE)
    then show ?thesis using None by (intro exI[of _ es]) simp
  qed
next
  case (Some i)
  show ?thesis
  proof (cases "IsFuncValueOlderThanInputs C (nodes s) (m_recurrentNodesForForward (m_recurrentInfo s ! i)) \<and>
             \<not> m_completedEvaluate (m_recurrentInfo s ! i)")
    case True
    with Some assms have loop: "EvaluateLoop C i s = (r, s')" by (simp add: EvaluateNode_def)
    show ?thesis
    proof (cases r)
      case None
      with loop have "EvaluateLoop C i s = (None, s')" by simp
      from EvaluateLoop_success[OF this] obtain es where
        "trace s' = trace s @ es" "loopRun C (m_recurrentInfo s ! i) es"
        "m_recurrentInfo s' =
           (m_recurrentInfo s)[i := (m_recurrentInfo s ! i)\<lparr>m_completedEvaluate := True\<rparr>]"
        by (elim exE conjE)
      then show ?thesis using Some True None
        by (intro exI[of _ es] conjI disjI2 exI[of _ i]) simp_all
    next
      case (Some e)
      from EvaluateLoop_result[OF loop] obtain es where
        "trace s' = trace s @ es" "m_recurrentInfo s' = m_recurrentInfo s"
        using Some by auto
      then show ?thesis using Some by (intro exI[of _ es]) simp
    qed
  next
    case False
    with Some assms have "callNode C (OnEvaluateEndIteration n) s = (r, s')"
      by (auto simp: EvaluateNode_def)
    from emits_EndOnly this obtain es full where
      "trace s' = trace s @ es" "m_recurrentInfo s' = m_recurrentInfo s"
      by (rule emitsE)
    then show ?thesis using Some False by (intro exI[of _ es]) auto
  qed
qed

lemma clearedFlags_update:
  "clearedFlags (ris[i := (ris ! i)\<lparr>m_completedEvaluate := b\<rparr>]) = clearedFlags ris"
  unfolding clearedFlags_def by (rule map_update_same) simp

lemma clearedFlags_length: "clearedFlags a = clearedFlags b \<Longrightarrow> length a = length b"
  unfolding clearedFlags_def by (rule map_eq_imp_length_eq)

lemma clearedFlags_nth:
  assumes "clearedFlags a = clearedFlags b" "j < length a"
  shows "(a ! j)\<lparr>m_completedEvaluate := False\<rparr> = (b ! j)\<lparr>m_completedEvaluate := False\<rparr>"
proof -
  have "j < length b" using assms clearedFlags_length by metis
  then have "clearedFlags b ! j = (b ! j)\<lparr>m_completedEvaluate := False\<rparr>"
    by (simp add: clearedFlags_def)
  moreover have "clearedFlags a ! j = (a ! j)\<lparr>m_completedEvaluate := False\<rparr>"
    using assms(2) by (simp add: clearedFlags_def)
  ultimately show ?thesis using assms(1) by simp
qed

lemma clearedFlags_fields:
  assumes "clearedFlags a = clearedFlags b" "j < length a"
  shows "m_recurrentNodesForForward (a ! j) = m_recurrentNodesForForward (b ! j)"
    and "m_steppingDirection (a ! j) = m_steppingDirection (b ! j)"
    and "m_recurrentNodes (a ! j) = m_recurrentNodes (b ! j)"
proof -
  note eq = clearedFlags_nth[OF assms]
  have "m_recurrentNodesForForward ((a ! j)\<lparr>m_completedEvaluate := False\<rparr>) =
      m_recurrentNodesForForward ((b ! j)\<lparr>m_completedEvaluate := False\<rparr>)" by (simp only: eq)
  then show "m_recurrentNodesForForward (a ! j) = m_recurrentNodesForForward (b ! j)" by simp
  have "m_steppingDirection ((a ! j)\<lparr>m_completedEvaluate := False\<rparr>) =
      m_steppingDirection ((b ! j)\<lparr>m_completedEvaluate := False\<rparr>)" by (simp only: eq)
  then show "m_steppingDirection (a ! j) = m_steppingDirection (b ! j)" by simp
  have "m_recurrentNodes ((a ! j)\<lparr>m_completedEvaluate := False\<rparr>) =
      m_recurrentNodes ((b ! j)\<lparr>m_completedEvaluate := False\<rparr>)" by (simp only: eq)
  then show "m_recurrentNodes (a ! j) = m_recurrentNodes (b ! j)" by simp
qed

lemma clearedFlags_loopRun:
  assumes "clearedFlags a = clearedFlags b" "j < length a"
  shows "loopRun C (a ! j) seg = loopRun C (b ! j) seg"
  unfolding loopRun_def clearedFlags_fields(1,2)[OF assms] by (rule refl)

lemma clearedFlags_sameLoops:
  assumes "clearedFlags a = clearedFlags b"
  shows "sameLoops a b"
proof -
  have len: "length a = length b" using assms by (rule clearedFlags_length)
  have "map m_recurrentNodes a = map m_recurrentNodes b"
    using len clearedFlags_fields(3)[OF assms] by (intro nth_equalityI) simp_all
  moreover have "map m_recurrentNodesForForward a = map m_recurrentNodesForForward b"
    using len clearedFlags_fields(1)[OF assms] by (intro nth_equalityI) simp_all
  ultimately show ?thesis by (simp add: sameLoops_def)
qed

lemma walked_nil: "walked C [] r [] ris ris"
  by (simp add: walked_def)

lemma walked_stop:
  assumes "r \<noteq> None"
  shows "walked C ns r es ris ris"
  using assms by (auto simp: walked_def)

lemma walked_same:
  assumes rest: "walked C ns r es2 ris ris'"
    and stale: "\<forall>i. FindInRecurrentLoops ris n = Some i \<longrightarrow>
           IsFuncValueOlderThanInputs C st0 (m_recurrentNodesForForward (ris ! i)) \<longrightarrow>
           m_completedEvaluate (ris ! i)"
  shows "walked C (n # ns) r (es1 @ es2) ris ris'"
  unfolding walked_def
proof (intro conjI allI impI ballI)
  show "clearedFlags ris' = clearedFlags ris" using rest by (simp add: walked_def)
next
  fix j assume "j < length ris" "m_completedEvaluate (ris ! j)"
  then show "m_completedEvaluate (ris' ! j)" using rest by (simp add: walked_def)
next
  fix j assume "j < length ris" "m_completedEvaluate (ris' ! j)" "\<not> m_completedEvaluate (ris ! j)"
  then obtain pre seg post where "es2 = pre @ seg @ post" "loopRun C (ris ! j) seg"
    using rest unfolding walked_def by blast
  then show "\<exists>pre seg post. es1 @ es2 = pre @ seg @ post \<and> loopRun C (ris ! j) seg"
    by (intro exI[of _ "es1 @ pre"] exI[of _ seg] exI[of _ post]) simp
next
  fix m i
  assume r: "r = None" and m: "m \<in> set (n # ns)"
    and f: "FindInRecurrentLoops ris m = Some i"
    and a: "\<forall>st. IsFuncValueOlderThanInputs C st (m_recurrentNodesForForward (ris ! i))"
  show "m_completedEvaluate (ris' ! i)"
  proof (cases "m = n")
    case True
    then have "m_completedEvaluate (ris ! i)" using stale f a by blast
    moreover have "i < length ris" using Find_Some[OF f] by simp
    ultimately show ?thesis using rest by (simp add: walked_def)
  next
    case False
    with m have "m \<in> set ns" by simp
    then show ?thesis using rest r f a unfolding walked_def by blast
  qed
qed

lemma walked_ran:
  assumes rest: "walked C ns r es2 (ris[i := (ris ! i)\<lparr>m_completedEvaluate := True\<rparr>]) ris'"
    and f: "FindInRecurrentLoops ris n = Some i"
    and ran: "loopRun C (ris ! i) es1"
  shows "walked C (n # ns) r (es1 @ es2) ris ris'"
proof -
  let ?mid = "ris[i := (ris ! i)\<lparr>m_completedEvaluate := True\<rparr>]"
  have i: "i < length ris" using Find_Some[OF f] by simp
  have cl: "clearedFlags ?mid = clearedFlags ris" by (rule clearedFlags_update)
  have same: "sameLoops ris ?mid" by (rule sameLoops_update)
  have fields: "m_recurrentNodesForForward (?mid ! j) = m_recurrentNodesForForward (ris ! j)"
    if "j < length ris" for j
    using clearedFlags_fields(1)[OF cl, of j] that by simp
  have runs: "loopRun C (?mid ! j) seg = loopRun C (ris ! j) seg" if "j < length ris" for j seg
    using clearedFlags_loopRun[OF cl, of j] that by simp
  have mid_i: "m_completedEvaluate (?mid ! i)" using i by simp
  have mid_j: "m_completedEvaluate (?mid ! j) = m_completedEvaluate (ris ! j)"
    if "j < length ris" "j \<noteq> i" for j
    using that by simp
  have keep: "m_completedEvaluate (?mid ! j)" if "j < length ris" "m_completedEvaluate (ris ! j)" for j
    using that i by (cases "j = i") simp_all
  show ?thesis
    unfolding walked_def
  proof (intro conjI allI impI ballI)
    show "clearedFlags ris' = clearedFlags ris" using rest cl by (simp add: walked_def)
  next
    fix j assume j: "j < length ris" "m_completedEvaluate (ris ! j)"
    have "m_completedEvaluate (?mid ! j)" using keep[OF j] .
    then show "m_completedEvaluate (ris' ! j)" using rest j(1) by (simp add: walked_def)
  next
    fix j assume j: "j < length ris" and c': "m_completedEvaluate (ris' ! j)"
      and c: "\<not> m_completedEvaluate (ris ! j)"
    show "\<exists>pre seg post. es1 @ es2 = pre @ seg @ post \<and> loopRun C (ris ! j) seg"
    proof (cases "j = i")
      case True
      then show ?thesis using ran
        by (intro exI[of _ "[]"] exI[of _ es1] exI[of _ es2]) simp
    next
      case False
      then have "\<not> m_completedEvaluate (?mid ! j)" using mid_j[OF j] c by simp
      moreover have "j < length ?mid" using j by simp
      ultimately obtain pre seg post where
        "es2 = pre @ seg @ post" "loopRun C (?mid ! j) seg"
        using rest c' unfolding walked_def by blast
      then show ?thesis using runs[OF j]
        by (intro exI[of _ "es1 @ pre"] exI[of _ seg] exI[of _ post]) simp
    qed
  next
    fix m k
    assume r: "r = None" and m: "m \<in> set (n # ns)"
      and fm: "FindInRecurrentLoops ris m = Some k"
      and a: "\<forall>st. IsFuncValueOlderThanInputs C st (m_recurrentNodesForForward (ris ! k))"
    have k: "k < length ris" using Find_Some[OF fm] by simp
    show "m_completedEvaluate (ris' ! k)"
    proof (cases "m = n")
      case True
      then have "k = i" using f fm by simp
      then show ?thesis using rest mid_i i by (simp add: walked_def)
    next
      case False
      with m have mem: "m \<in> set ns" by simp
      have fm': "FindInRecurrentLoops ?mid m = Some k" using Find_sameLoops[OF same] fm by simp
      have a': "\<forall>st. IsFuncValueOlderThanInputs C st (m_recurrentNodesForForward (?mid ! k))"
        using a fields[OF k] by simp
      show ?thesis using rest r mem fm' a' unfolding walked_def by blast
    qed
  qed
qed

lemma EvaluateWalk_walked:
  assumes "forEach (EvaluateNode C) ns s = (r, s')"
  shows "\<exists>es. trace s' = trace s @ es \<and> walked C ns r es (m_recurrentInfo s) (m_recurrentInfo s')"
  using assms
proof (induction ns arbitrary: s)
  case Nil
  then show ?case using walked_nil by (intro exI[of _ "[]"]) simp
next
  case (Cons n ns)
  obtain r1 s1 where st: "EvaluateNode C n s = (r1, s1)" by (cases "EvaluateNode C n s")
  from EvaluateNode_effect[OF st] obtain es1 where t1: "trace s1 = trace s @ es1"
    and eff: "(m_recurrentInfo s1 = m_recurrentInfo s \<and>
        (r1 = None \<longrightarrow> (\<forall>i. FindInRecurrentLoops (m_recurrentInfo s) n = Some i \<longrightarrow>
           IsFuncValueOlderThanInputs C (nodes s) (m_recurrentNodesForForward (m_recurrentInfo s ! i)) \<longrightarrow>
           m_completedEvaluate (m_recurrentInfo s ! i)))) \<or>
      (\<exists>i. FindInRecurrentLoops (m_recurrentInfo s) n = Some i \<and>
         \<not> m_completedEvaluate (m_recurrentInfo s ! i) \<and>
         loopRun C (m_recurrentInfo s ! i) es1 \<and> r1 = None \<and>
         m_recurrentInfo s1 =
           (m_recurrentInfo s)[i := (m_recurrentInfo s ! i)\<lparr>m_completedEvaluate := True\<rparr>])"
    by (elim exE conjE)
  show ?case
  proof (cases r1)
    case (Some e)
    with Cons.prems st have rs: "r = Some e" "s' = s1" by simp_all
    have "m_recurrentInfo s1 = m_recurrentInfo s" using eff Some by auto
    then show ?thesis using rs t1 walked_stop[of r C "n # ns" es1 "m_recurrentInfo s"]
      by (intro exI[of _ es1]) simp
  next
    case None
    with Cons.prems st have rest: "forEach (EvaluateNode C) ns s1 = (r, s')" by simp
    from Cons.IH[OF rest] obtain es2 where t2: "trace s' = trace s1 @ es2"
      and w: "walked C ns r es2 (m_recurrentInfo s1) (m_recurrentInfo s')"
      by (elim exE conjE)
    have tr: "trace s' = trace s @ (es1 @ es2)" using t1 t2 by simp
    from eff show ?thesis
    proof (elim disjE conjE exE)
      assume ri: "m_recurrentInfo s1 = m_recurrentInfo s"
        and stale: "r1 = None \<longrightarrow> (\<forall>i. FindInRecurrentLoops (m_recurrentInfo s) n = Some i \<longrightarrow>
           IsFuncValueOlderThanInputs C (nodes s) (m_recurrentNodesForForward (m_recurrentInfo s ! i)) \<longrightarrow>
           m_completedEvaluate (m_recurrentInfo s ! i))"
      have "walked C (n # ns) r (es1 @ es2) (m_recurrentInfo s) (m_recurrentInfo s')"
        using walked_same[of C ns r es2 "m_recurrentInfo s" "m_recurrentInfo s'" n "nodes s" es1]
          w ri stale None by simp
      then show ?thesis using tr by (intro exI[of _ "es1 @ es2"] conjI)
    next
      fix i
      assume f: "FindInRecurrentLoops (m_recurrentInfo s) n = Some i"
        and ran: "loopRun C (m_recurrentInfo s ! i) es1"
        and ri: "m_recurrentInfo s1 =
           (m_recurrentInfo s)[i := (m_recurrentInfo s ! i)\<lparr>m_completedEvaluate := True\<rparr>]"
      have "walked C (n # ns) r (es1 @ es2) (m_recurrentInfo s) (m_recurrentInfo s')"
        using walked_ran[of C ns r es2 "m_recurrentInfo s" i "m_recurrentInfo s'" n es1]
          w ri f ran by simp
      then show ?thesis using tr by (intro exI[of _ "es1 @ es2"] conjI)
    qed
  qed
qed

lemma forEach_append:
  "forEach f (xs @ ys) s =
     (case forEach f xs s of (None, s1) \<Rightarrow> forEach f ys s1 | (Some e, s1) \<Rightarrow> (Some e, s1))"
  by (induction xs arbitrary: s) (auto split: prod.splits option.splits)

text \<open>
  A member of a loop whose turn comes when the loop is older than its inputs: when the
  traversal returns normally, the loop is completed.
\<close>

lemma EvaluateWalk_turn:
  assumes walk: "forEach (EvaluateNode C) (before @ m # after) s0 = (None, s')"
    and pre: "forEach (EvaluateNode C) before s0 = (None, s1)"
    and f: "FindInRecurrentLoops (m_recurrentInfo s1) m = Some k"
    and stale: "IsFuncValueOlderThanInputs C (nodes s1)
        (m_recurrentNodesForForward (m_recurrentInfo s1 ! k))"
  shows "m_completedEvaluate (m_recurrentInfo s' ! k)"
proof -
  have tail: "forEach (EvaluateNode C) (m # after) s1 = (None, s')"
    using walk pre by (simp add: forEach_append)
  obtain r2 s2 where st: "EvaluateNode C m s1 = (r2, s2)" by (cases "EvaluateNode C m s1")
  have r2: "r2 = None" using tail st by (cases r2) simp_all
  have rest: "forEach (EvaluateNode C) after s2 = (None, s')" using tail st r2 by simp
  have k: "k < length (m_recurrentInfo s1)" using Find_Some[OF f] by simp
  from EvaluateNode_effect[OF st] obtain es where
    eff: "(m_recurrentInfo s2 = m_recurrentInfo s1 \<and>
        (r2 = None \<longrightarrow> (\<forall>i. FindInRecurrentLoops (m_recurrentInfo s1) m = Some i \<longrightarrow>
           IsFuncValueOlderThanInputs C (nodes s1) (m_recurrentNodesForForward (m_recurrentInfo s1 ! i)) \<longrightarrow>
           m_completedEvaluate (m_recurrentInfo s1 ! i)))) \<or>
      (\<exists>i. FindInRecurrentLoops (m_recurrentInfo s1) m = Some i \<and>
         \<not> m_completedEvaluate (m_recurrentInfo s1 ! i) \<and>
         loopRun C (m_recurrentInfo s1 ! i) es \<and> r2 = None \<and>
         m_recurrentInfo s2 =
           (m_recurrentInfo s1)[i := (m_recurrentInfo s1 ! i)\<lparr>m_completedEvaluate := True\<rparr>])"
    by (elim exE conjE)
  have mid: "m_completedEvaluate (m_recurrentInfo s2 ! k) \<and> k < length (m_recurrentInfo s2)"
    using eff
  proof (elim disjE conjE exE)
    assume "m_recurrentInfo s2 = m_recurrentInfo s1"
      and "r2 = None \<longrightarrow> (\<forall>i. FindInRecurrentLoops (m_recurrentInfo s1) m = Some i \<longrightarrow>
           IsFuncValueOlderThanInputs C (nodes s1) (m_recurrentNodesForForward (m_recurrentInfo s1 ! i)) \<longrightarrow>
           m_completedEvaluate (m_recurrentInfo s1 ! i))"
    then show ?thesis using r2 f stale k by simp
  next
    fix i
    assume "FindInRecurrentLoops (m_recurrentInfo s1) m = Some i"
      and "m_recurrentInfo s2 =
           (m_recurrentInfo s1)[i := (m_recurrentInfo s1 ! i)\<lparr>m_completedEvaluate := True\<rparr>]"
    then show ?thesis using f k by simp
  qed
  from EvaluateWalk_walked[OF rest] obtain es2 where
    "walked C after None es2 (m_recurrentInfo s2) (m_recurrentInfo s')"
    by (elim exE conjE)
  then show ?thesis using mid unfolding walked_def by blast
qed

text \<open>
  C3. Within one \<^verbatim>\<open>Evaluate(root)\<close>, started with an empty log, no node is begun or
  evaluated twice on the same frame range: the calls \<^verbatim>\<open>OnEvaluateBeginIteration(n)\<close> and
  \<^verbatim>\<open>EvaluateThisNode(n, range)\<close> of the log are pairwise distinct. A whole-batch
  evaluation is made only on a node of no loop, and an evaluation of one time step only on
  a member of a loop, whose \<^verbatim>\<open>m_completedEvaluate\<close> is set when the call returns normally.
  The flags \<^verbatim>\<open>m_completedEvaluate\<close> are reset when the call starts, whatever they were:
  for a root that is built, a loop whose flag is set when the call ends, normally or not,
  has been run to its end in this call, which is to say that the log has a segment whose
  forward events are \<^verbatim>\<open>OnEvaluateBeginIteration\<close> on each member and then
  \<^verbatim>\<open>EvaluateThisNode\<close> on each member at each frame of the frame iteration. When the call
  returns normally, a loop that has a member in the evaluation order and is older than its
  inputs in every state has its flag set, so it has been run; and so has the loop of a
  member at whose turn in the traversal the loop is older than its inputs.
  This holds for a network whose loops are well formed (the members of the loops are
  distinct and disjoint, and each loop's forward list has the members of the loop) and an
  evaluation order without repetition.
\<close>

theorem Evaluate_evaluates_once:
  assumes wf: "loopsWellFormed (m_recurrentInfo s)"
    and order: "distinct (GetEvalOrder C rootNode)"
    and run: "Evaluate C rootNode (s\<lparr>trace := []\<rparr>) = (r, s')"
  shows "distinct (filter forwardEvent (trace s')) \<and>
     (\<forall>n l. EvaluateThisNode n (AllFrames l) \<in> set (trace s') \<longrightarrow>
        FindInRecurrentLoops (m_recurrentInfo s') n = None) \<and>
     (\<forall>n lay t. EvaluateThisNode n (Frame lay t) \<in> set (trace s') \<longrightarrow>
        (\<exists>i. FindInRecurrentLoops (m_recurrentInfo s') n = Some i \<and>
             (r = None \<longrightarrow> m_completedEvaluate (m_recurrentInfo s' ! i)))) \<and>
     (BuiltAndValidatedSubNetwork rootNode s \<longrightarrow>
        (\<forall>i<length (m_recurrentInfo s'). m_completedEvaluate (m_recurrentInfo s' ! i) \<longrightarrow>
           (\<exists>pre seg post. trace s' = pre @ seg @ post \<and>
              loopRun C (m_recurrentInfo s' ! i) seg))) \<and>
     (r = None \<longrightarrow>
        (\<forall>n\<in>set (GetEvalOrder C rootNode). \<forall>i.
           FindInRecurrentLoops (m_recurrentInfo s') n = Some i \<longrightarrow>
           (\<forall>st. IsFuncValueOlderThanInputs C st
                   (m_recurrentNodesForForward (m_recurrentInfo s' ! i))) \<longrightarrow>
           m_completedEvaluate (m_recurrentInfo s' ! i))) \<and>
     (r = None \<longrightarrow>
        GetEvalOrder C rootNode = before @ m # after \<longrightarrow>
        forEach (EvaluateNode C) before (resetCompletedEvaluate (s\<lparr>trace := []\<rparr>)) = (None, s1) \<longrightarrow>
        FindInRecurrentLoops (m_recurrentInfo s1) m = Some k \<longrightarrow>
        IsFuncValueOlderThanInputs C (nodes s1)
          (m_recurrentNodesForForward (m_recurrentInfo s1 ! k)) \<longrightarrow>
        m_completedEvaluate (m_recurrentInfo s' ! k))"
proof (cases "BuiltAndValidatedSubNetwork rootNode (s\<lparr>trace := []\<rparr>)")
  case False
  with run have "s' = s\<lparr>trace := []\<rparr>" "r = Some NotBuilt" by (simp_all add: Evaluate_def)
  then show ?thesis using False by (simp add: BuiltAndValidatedSubNetwork_def)
next
  case True
  let ?s0 = "resetCompletedEvaluate (s\<lparr>trace := []\<rparr>)"
  let ?ris0 = "m_recurrentInfo ?s0"
  have walk: "forEach (EvaluateNode C) (GetEvalOrder C rootNode) ?s0 = (r, s')"
    using run True by (simp add: Evaluate_def)
  have "loopsWellFormed ?ris0"
    using sameLoops_wf[OF sameLoops_reset wf] by (simp add: resetCompletedEvaluate_def)
  then have "walkInv {} ?s0" by (simp add: walkInv_def resetCompletedEvaluate_def)
  from EvaluateWalk[OF this order _ walk] have post: "walkPost r s'" by simp
  from EvaluateWalk_walked[OF walk] obtain es where tr: "trace s' = trace ?s0 @ es"
    and w: "walked C (GetEvalOrder C rootNode) r es ?ris0 (m_recurrentInfo s')"
    by (elim exE conjE)
  have tr': "trace s' = es" using tr by (simp add: resetCompletedEvaluate_def)
  have cl: "clearedFlags (m_recurrentInfo s') = clearedFlags ?ris0" using w by (simp add: walked_def)
  have len: "length (m_recurrentInfo s') = length ?ris0" using cl by (rule clearedFlags_length)
  have open_loops: "\<not> m_completedEvaluate (?ris0 ! j)" if "j < length ?ris0" for j
    using that by (simp add: resetCompletedEvaluate_def)
  have same: "sameLoops (m_recurrentInfo s') ?ris0" using cl by (rule clearedFlags_sameLoops)
  have ran: "\<exists>pre seg post. trace s' = pre @ seg @ post \<and> loopRun C (m_recurrentInfo s' ! i) seg"
    if i: "i < length (m_recurrentInfo s')" and c: "m_completedEvaluate (m_recurrentInfo s' ! i)" for i
  proof -
    have i0: "i < length ?ris0" using i len by simp
    from w i0 c open_loops[OF i0] obtain pre seg post where
      "es = pre @ seg @ post" "loopRun C (?ris0 ! i) seg"
      unfolding walked_def by blast
    then show ?thesis using tr' clearedFlags_loopRun[OF cl i, of C seg]
      by (intro exI[of _ pre] exI[of _ seg] exI[of _ post]) simp
  qed
  have stale: "m_completedEvaluate (m_recurrentInfo s' ! i)"
    if rn: "r = None" and n: "n \<in> set (GetEvalOrder C rootNode)"
      and f: "FindInRecurrentLoops (m_recurrentInfo s') n = Some i"
      and a: "\<forall>st. IsFuncValueOlderThanInputs C st
                   (m_recurrentNodesForForward (m_recurrentInfo s' ! i))" for n i
  proof -
    have f0: "FindInRecurrentLoops ?ris0 n = Some i" using Find_sameLoops[OF same] f by simp
    have i: "i < length (m_recurrentInfo s')" using Find_Some[OF f] by simp
    have "m_recurrentNodesForForward (m_recurrentInfo s' ! i) = m_recurrentNodesForForward (?ris0 ! i)"
      using clearedFlags_fields(1)[OF cl i] .
    then have a0: "\<forall>st. IsFuncValueOlderThanInputs C st (m_recurrentNodesForForward (?ris0 ! i))"
      using a by simp
    show ?thesis using w rn n f0 a0 unfolding walked_def by blast
  qed
  show ?thesis
  proof (intro conjI)
    show "distinct (filter forwardEvent (trace s'))" using post by (simp add: walkPost_def)
    show "\<forall>n l. EvaluateThisNode n (AllFrames l) \<in> set (trace s') \<longrightarrow>
        FindInRecurrentLoops (m_recurrentInfo s') n = None"
      using post by (simp add: walkPost_def)
    show "\<forall>n lay t. EvaluateThisNode n (Frame lay t) \<in> set (trace s') \<longrightarrow>
        (\<exists>i. FindInRecurrentLoops (m_recurrentInfo s') n = Some i \<and>
             (r = None \<longrightarrow> m_completedEvaluate (m_recurrentInfo s' ! i)))"
      using post by (simp add: walkPost_def)
    show "BuiltAndValidatedSubNetwork rootNode s \<longrightarrow>
        (\<forall>i<length (m_recurrentInfo s'). m_completedEvaluate (m_recurrentInfo s' ! i) \<longrightarrow>
           (\<exists>pre seg post. trace s' = pre @ seg @ post \<and>
              loopRun C (m_recurrentInfo s' ! i) seg))"
      using ran by blast
    show "r = None \<longrightarrow>
        (\<forall>n\<in>set (GetEvalOrder C rootNode). \<forall>i.
           FindInRecurrentLoops (m_recurrentInfo s') n = Some i \<longrightarrow>
           (\<forall>st. IsFuncValueOlderThanInputs C st
                   (m_recurrentNodesForForward (m_recurrentInfo s' ! i))) \<longrightarrow>
           m_completedEvaluate (m_recurrentInfo s' ! i))"
      using stale by blast
    show "r = None \<longrightarrow>
        GetEvalOrder C rootNode = before @ m # after \<longrightarrow>
        forEach (EvaluateNode C) before (resetCompletedEvaluate (s\<lparr>trace := []\<rparr>)) = (None, s1) \<longrightarrow>
        FindInRecurrentLoops (m_recurrentInfo s1) m = Some k \<longrightarrow>
        IsFuncValueOlderThanInputs C (nodes s1)
          (m_recurrentNodesForForward (m_recurrentInfo s1 ! k)) \<longrightarrow>
        m_completedEvaluate (m_recurrentInfo s' ! k)"
    proof (intro impI)
      assume rn: "r = None" and o: "GetEvalOrder C rootNode = before @ m # after"
        and p: "forEach (EvaluateNode C) before (resetCompletedEvaluate (s\<lparr>trace := []\<rparr>)) = (None, s1)"
        and fk: "FindInRecurrentLoops (m_recurrentInfo s1) m = Some k"
        and st: "IsFuncValueOlderThanInputs C (nodes s1)
          (m_recurrentNodesForForward (m_recurrentInfo s1 ! k))"
      have "forEach (EvaluateNode C) (before @ m # after) ?s0 = (None, s')"
        using walk rn o by simp
      from EvaluateWalk_turn[OF this p fk st]
      show "m_completedEvaluate (m_recurrentInfo s' ! k)" .
    qed
  qed
qed

lemma ex_Evaluate_again:
  "Evaluate exContract 3 exEvaluated = Evaluate exContract 3 exNetwork"
  by (simp add: Evaluate_def BuiltAndValidatedSubNetwork_def resetCompletedEvaluate_def
      exEvaluated_def exNetwork_def exLoop_def)

text \<open>
  C3 on the example network, entered with the flag of the loop set: the flag is reset,
  the loop is run once, over both frames, and the flag is set again.
\<close>

theorem Evaluate_evaluates_once_witness:
  "loopsWellFormed (m_recurrentInfo exEvaluated) \<and> distinct (GetEvalOrder exContract 3) \<and>
   BuiltAndValidatedSubNetwork 3 exEvaluated \<and>
   m_completedEvaluate (m_recurrentInfo exEvaluated ! 0) \<and>
   fst (Evaluate exContract 3 exEvaluated) = None \<and>
   distinct (filter forwardEvent (trace (snd (Evaluate exContract 3 exEvaluated)))) \<and>
   FindInRecurrentLoops (m_recurrentInfo (snd (Evaluate exContract 3 exEvaluated))) 5 = None \<and>
   m_completedEvaluate (m_recurrentInfo (snd (Evaluate exContract 3 exEvaluated)) ! 0) \<and>
   GetEvalOrder exContract 3 = [5] @ 4 # [3] \<and>
   (\<exists>s1. forEach (EvaluateNode exContract) [5] (resetCompletedEvaluate exEvaluated) = (None, s1) \<and>
      FindInRecurrentLoops (m_recurrentInfo s1) 4 = Some 0 \<and>
      \<not> m_completedEvaluate (m_recurrentInfo s1 ! 0) \<and>
      IsFuncValueOlderThanInputs exContract (nodes s1)
        (m_recurrentNodesForForward (m_recurrentInfo s1 ! 0))) \<and>
   (\<exists>pre seg post. trace (snd (Evaluate exContract 3 exEvaluated)) = pre @ seg @ post \<and>
      filter forwardEvent seg =
        [OnEvaluateBeginIteration 4, OnEvaluateBeginIteration 3,
         EvaluateThisNode 4 (Frame 7 0), EvaluateThisNode 3 (Frame 7 0),
         EvaluateThisNode 4 (Frame 7 1), EvaluateThisNode 3 (Frame 7 1)])"
proof -
  let ?s' = "snd (Evaluate exContract 3 exEvaluated)"
  have wf: "loopsWellFormed (m_recurrentInfo exEvaluated)"
    by (auto simp: loopsWellFormed_def exEvaluated_def ex_defs)
  have order: "distinct (GetEvalOrder exContract 3)" by (simp add: exContract_def)
  have built: "BuiltAndValidatedSubNetwork 3 exEvaluated"
    by (simp add: BuiltAndValidatedSubNetwork_def exEvaluated_def exNetwork_def)
  have flag: "m_completedEvaluate (m_recurrentInfo exEvaluated ! 0)"
    by (simp add: exEvaluated_def)
  have tr: "exEvaluated\<lparr>trace := []\<rparr> = exEvaluated" by (simp add: exEvaluated_def exNetwork_def)
  have run: "Evaluate exContract 3 (exEvaluated\<lparr>trace := []\<rparr>) =
      (fst (Evaluate exContract 3 exEvaluated), ?s')"
    by (simp add: tr)
  have ri: "m_recurrentInfo ?s' = [exLoop\<lparr>m_completedEvaluate := True\<rparr>]"
    by (simp add: ex_Evaluate_again ex_Evaluate)
  have a: "EvaluateThisNode 5 (AllFrames (Some 7)) \<in> set (trace ?s')"
    by (simp add: ex_Evaluate_again ex_Evaluate)
  have ok: "fst (Evaluate exContract 3 exEvaluated) = None"
    by (simp add: ex_Evaluate_again ex_Evaluate)
  have mem: "3 \<in> set (GetEvalOrder exContract 3)" by (simp add: exContract_def)
  have one: "FindInRecurrentLoops (m_recurrentInfo ?s') 3 = Some 0"
    unfolding ri by (simp add: exLoop_def)
  have stale: "\<forall>st. IsFuncValueOlderThanInputs exContract st
      (m_recurrentNodesForForward (m_recurrentInfo ?s' ! 0))"
    unfolding ri
    by (simp add: exContract_def exLoop_def
        OperationNameOf_PastValueNode_def OperationNameOf_FutureValueNode_def)
  have len: "0 < length (m_recurrentInfo ?s')" unfolding ri by simp
  note main = Evaluate_evaluates_once[OF wf order run]
  from main have d: "distinct (filter forwardEvent (trace ?s'))"
    by (rule conjunct1)
  from main a have f0: "FindInRecurrentLoops (m_recurrentInfo ?s') 5 = None"
    by blast
  from main[THEN conjunct2, THEN conjunct2, THEN conjunct2, THEN conjunct2, THEN conjunct1]
    ok mem one stale
  have c: "m_completedEvaluate (m_recurrentInfo ?s' ! 0)"
    by blast
  have o: "GetEvalOrder exContract 3 = [5] @ 4 # [3]" by (simp add: exContract_def)
  obtain s1 where p: "forEach (EvaluateNode exContract) [5] (resetCompletedEvaluate exEvaluated) = (None, s1)"
    and f4: "FindInRecurrentLoops (m_recurrentInfo s1) 4 = Some 0"
    and o4: "\<not> m_completedEvaluate (m_recurrentInfo s1 ! 0)"
    and s4: "IsFuncValueOlderThanInputs exContract (nodes s1)
        (m_recurrentNodesForForward (m_recurrentInfo s1 ! 0))"
    by (simp add: run_defs exEvaluated_def ex_defs)
  have p': "forEach (EvaluateNode exContract) [5] (resetCompletedEvaluate (exEvaluated\<lparr>trace := []\<rparr>)) =
      (None, s1)"
    using p by (simp only: tr)
  from main[THEN conjunct2, THEN conjunct2, THEN conjunct2, THEN conjunct2, THEN conjunct2,
      rule_format, OF ok o p' f4 s4]
  have c2: "m_completedEvaluate (m_recurrentInfo ?s' ! 0)" .
  have turn: "\<exists>s1. forEach (EvaluateNode exContract) [5] (resetCompletedEvaluate exEvaluated) = (None, s1) \<and>
      FindInRecurrentLoops (m_recurrentInfo s1) 4 = Some 0 \<and>
      \<not> m_completedEvaluate (m_recurrentInfo s1 ! 0) \<and>
      IsFuncValueOlderThanInputs exContract (nodes s1)
        (m_recurrentNodesForForward (m_recurrentInfo s1 ! 0))"
    using p f4 o4 s4 by (intro exI[of _ s1] conjI)
  from main[THEN conjunct2, THEN conjunct2, THEN conjunct2, THEN conjunct1] built len c
  obtain pre seg post where seg: "trace ?s' = pre @ seg @ post"
    and ran: "loopRun exContract (m_recurrentInfo ?s' ! 0) seg"
    by blast
  from ran have "filter forwardEvent seg =
        [OnEvaluateBeginIteration 4, OnEvaluateBeginIteration 3,
         EvaluateThisNode 4 (Frame 7 0), EvaluateThisNode 3 (Frame 7 0),
         EvaluateThisNode 4 (Frame 7 1), EvaluateThisNode 3 (Frame 7 1)]"
    unfolding ri loopRun_def
    by (auto simp: exContract_def exLoop_def loopEvents_def FrameRangeIteration_def upt_rec)
  with seg have ex: "\<exists>pre seg post. trace ?s' = pre @ seg @ post \<and>
      filter forwardEvent seg =
        [OnEvaluateBeginIteration 4, OnEvaluateBeginIteration 3,
         EvaluateThisNode 4 (Frame 7 0), EvaluateThisNode 3 (Frame 7 0),
         EvaluateThisNode 4 (Frame 7 1), EvaluateThisNode 3 (Frame 7 1)]"
    by (intro exI[of _ pre] exI[of _ seg] exI[of _ post] conjI)
  show ?thesis using wf order built flag ok d f0 c2 o turn ex by (intro conjI)
qed

lemma emits_calls:
  assumes "\<And>n. P (c n)"
  shows "emits (forEach (\<lambda>n. callNode C (c n)) ns) P {map c ns}"
proof -
  have "emits (forEach (\<lambda>n. callNode C (c n)) ns) P {concat (map (\<lambda>n. [c n]) ns)}"
    by (rule emits_forEach, rule emits_callNode_yes) (rule assms)
  then show ?thesis by (simp add: concat_map_singleton)
qed

lemma emits_loopGradientFrame_back:
  "emits (loopGradientFrame C t n) backwardCall {[ComputeGradientForChildren n t]}"
proof -
  have "\<And>k. emits (callNode C (VerifyNumParallelSequences n k)) backwardCall {[]}"
    by (rule emits_callNode_no) simp
  then have 1: "emits (\<lambda>s. callNode C (VerifyNumParallelSequences n
                      (GetNumParallelSequences C (nodes s) (m_pMBLayout s))) s) backwardCall {[]}"
    using emits_dep[of "\<lambda>k. callNode C (VerifyNumParallelSequences n k)" backwardCall "{[]}"
        "\<lambda>s. GetNumParallelSequences C (nodes s) (m_pMBLayout s)"] by simp
  have 2: "emits (whenDo (IsNodeReqMultiSeqHandling C n) (callNode C (MaskMissingGradientColumnsToZero n t)))
     backwardCall {[]}"
    by (rule emits_whenDo_silent, rule emits_callNode_no) simp
  have 3: "emits (callNode C (ComputeGradientForChildren n t)) backwardCall {[ComputeGradientForChildren n t]}"
    by (rule emits_callNode_yes) simp
  show ?thesis
    unfolding loopGradientFrame_def
    using emits_andThen[OF 1 emits_andThen[OF 2 3]] by simp
qed

lemma emits_gradient_frames:
  "emits (ComputeGradientLoopFrames C lay T step ns) backwardCall
      {concat (map (\<lambda>k. map (\<lambda>n. ComputeGradientForChildren n (Frame lay k)) (rev ns))
         (FrameRangeIteration_reverse T step))}"
  unfolding ComputeGradientLoopFrames_def
  by (rule emits_nested[where c = "\<lambda>k n. ComputeGradientForChildren n (Frame lay k)"])
     (rule emits_loopGradientFrame_back)

lemma ComputeGradientLoop_success:
  assumes "ComputeGradientLoop C i s = (None, s')"
  shows "\<exists>es. trace s' = trace s @ es \<and> loopBackwardRun C (m_recurrentInfo s ! i) es \<and>
     m_recurrentInfo s' =
       (m_recurrentInfo s)[i := (m_recurrentInfo s ! i)\<lparr>m_completedGradient := True\<rparr>]"
proof -
  let ?ns = "m_recurrentNodesForForward (m_recurrentInfo s ! i)"
  let ?dir = "m_steppingDirection (m_recurrentInfo s ! i)"
  let ?A = "forEach (\<lambda>node2. callNode C (OnComputeGradientBeginIteration node2)) ?ns"
  let ?B = "\<lambda>s1. case ?ns of
                [] \<Rightarrow> (Some InvalidAccess, s1)
              | first # _ \<Rightarrow>
                  (case GetMBLayout C (nodes s1) first of
                     None \<Rightarrow> (Some InvalidAccess, s1)
                   | Some lay \<Rightarrow>
                       ComputeGradientLoopFrames C lay (GetNumTimeSteps C (nodes s1) lay) ?dir ?ns s1)"
  let ?D = "forEach (\<lambda>node2. callNode C (OnComputeGradientEndIteration node2)) ?ns"
  have run: "andThen (andThen ?A (andThen ?B ?D))
      (\<lambda>s2. (None, setCompletedGradient i True s2)) s = (None, s')"
    using assms by (simp add: ComputeGradientLoop_split)
  from andThen_None[OF run] obtain s3 where
    body: "andThen ?A (andThen ?B ?D) s = (None, s3)"
    and fin: "(None, setCompletedGradient i True s3) = (None, s')"
    by blast
  from andThen_None[OF body] obtain s1 where a: "?A s = (None, s1)"
    and body1: "andThen ?B ?D s1 = (None, s3)"
    by blast
  from andThen_None[OF body1] obtain s2 where b: "?B s1 = (None, s2)" and d: "?D s2 = (None, s3)"
    by blast
  from b obtain first rest where ns: "?ns = first # rest" by (cases ?ns) auto
  from b ns obtain lay where lay: "GetMBLayout C (nodes s1) first = Some lay"
    and fr: "ComputeGradientLoopFrames C lay (GetNumTimeSteps C (nodes s1) lay) ?dir ?ns s1 = (None, s2)"
    by (cases "GetMBLayout C (nodes s1) first") auto
  let ?T = "GetNumTimeSteps C (nodes s1) lay"
  have emA: "emits ?A backwardCall {map OnComputeGradientBeginIteration ?ns}"
    by (rule emits_calls) simp
  have emD: "emits ?D backwardCall {map OnComputeGradientEndIteration ?ns}"
    by (rule emits_calls) simp
  from emA a obtain e1 where
    e1: "trace s1 = trace s @ e1" "filter backwardCall e1 = map OnComputeGradientBeginIteration ?ns"
      "m_recurrentInfo s1 = m_recurrentInfo s"
    by (rule emits_None)
  from emits_gradient_frames fr obtain e2 where
    e2: "trace s2 = trace s1 @ e2"
      "filter backwardCall e2 =
         concat (map (\<lambda>k. map (\<lambda>n. ComputeGradientForChildren n (Frame lay k)) (rev ?ns))
           (FrameRangeIteration_reverse ?T ?dir))"
      "m_recurrentInfo s2 = m_recurrentInfo s1"
    by (rule emits_None)
  from emD d obtain e3 where
    e3: "trace s3 = trace s2 @ e3" "filter backwardCall e3 = map OnComputeGradientEndIteration ?ns"
      "m_recurrentInfo s3 = m_recurrentInfo s2"
    by (rule emits_None)
  have s': "s' = setCompletedGradient i True s3" using fin by simp
  have tr: "trace s' = trace s @ (e1 @ e2 @ e3)"
    using e1(1) e2(1) e3(1) s' by (simp add: setCompletedGradient_def)
  have fl: "filter backwardCall (e1 @ e2 @ e3) =
      map OnComputeGradientBeginIteration ?ns @
      concat (map (\<lambda>k. map (\<lambda>n. ComputeGradientForChildren n (Frame lay k)) (rev ?ns))
           (FrameRangeIteration_reverse ?T ?dir)) @
      map OnComputeGradientEndIteration ?ns"
    using e1(2) e2(2) e3(2) by simp
  have hd: "hd ?ns = first" using ns by simp
  have lr: "loopBackwardRun C (m_recurrentInfo s ! i) (e1 @ e2 @ e3)"
    unfolding loopBackwardRun_def
    by (intro exI[of _ lay] exI[of _ "nodes s1"] exI[of _ "nodes s1"] conjI)
       (simp_all only: hd lay fl)
  have ri: "m_recurrentInfo s' =
       (m_recurrentInfo s)[i := (m_recurrentInfo s ! i)\<lparr>m_completedGradient := True\<rparr>]"
    using e1(3) e2(3) e3(3) s' by (simp add: setCompletedGradient_def)
  show ?thesis using tr lr ri by (intro exI[of _ "e1 @ e2 @ e3"] conjI)
qed

text \<open>
  What one step of the traversal of \<^verbatim>\<open>ComputeGradient\<close> does to the loops: either it
  leaves them alone, and then, if it returned normally on a member of a loop, that loop
  was completed before; or it ran the backward pass of the loop of the node, which was
  not completed, to its end and set the flag of that loop.
\<close>

lemma ComputeGradientNode_effect:
  assumes "ComputeGradientNode C n s = (r, s')"
  shows "\<exists>es. trace s' = trace s @ es \<and>
     ((m_recurrentInfo s' = m_recurrentInfo s \<and>
        (r = None \<longrightarrow> (\<forall>i. FindInRecurrentLoops (m_recurrentInfo s) n = Some i \<longrightarrow>
           m_completedGradient (m_recurrentInfo s ! i)))) \<or>
      (\<exists>i. FindInRecurrentLoops (m_recurrentInfo s) n = Some i \<and>
         \<not> m_completedGradient (m_recurrentInfo s ! i) \<and>
         loopBackwardRun C (m_recurrentInfo s ! i) es \<and> r = None \<and>
         m_recurrentInfo s' =
           (m_recurrentInfo s)[i := (m_recurrentInfo s ! i)\<lparr>m_completedGradient := True\<rparr>]))"
proof (cases "FindInRecurrentLoops (m_recurrentInfo s) n")
  case None
  with assms have "ComputeGradientWholeBatch C n s = (r, s')" by (simp add: ComputeGradientNode_def)
  from ComputeGradientWholeBatch_result[OF this] obtain es where
    "trace s' = trace s @ es" "m_recurrentInfo s' = m_recurrentInfo s"
    by (elim exE conjE)
  then show ?thesis using None by (intro exI[of _ es]) simp
next
  case (Some i)
  show ?thesis
  proof (cases "m_completedGradient (m_recurrentInfo s ! i)")
    case True
    with Some assms have "s' = s" "r = None" by (simp_all add: ComputeGradientNode_def)
    then show ?thesis using Some True by (intro exI[of _ "[]"]) simp
  next
    case False
    with Some assms have loop: "ComputeGradientLoop C i s = (r, s')"
      by (simp add: ComputeGradientNode_def)
    show ?thesis
    proof (cases r)
      case None
      with loop have "ComputeGradientLoop C i s = (None, s')" by simp
      from ComputeGradientLoop_success[OF this] obtain es where
        "trace s' = trace s @ es" "loopBackwardRun C (m_recurrentInfo s ! i) es"
        "m_recurrentInfo s' =
           (m_recurrentInfo s)[i := (m_recurrentInfo s ! i)\<lparr>m_completedGradient := True\<rparr>]"
        by (elim exE conjE)
      then show ?thesis using Some False None
        by (intro exI[of _ es] conjI disjI2 exI[of _ i]) simp_all
    next
      case (Some e)
      from ComputeGradientLoop_result[OF loop] obtain es where
        "trace s' = trace s @ es" "m_recurrentInfo s' = m_recurrentInfo s"
        using Some by auto
      then show ?thesis using Some by (intro exI[of _ es]) simp
    qed
  qed
qed

lemma clearedGradientFlags_update:
  "clearedGradientFlags (ris[i := (ris ! i)\<lparr>m_completedGradient := b\<rparr>]) = clearedGradientFlags ris"
  unfolding clearedGradientFlags_def by (rule map_update_same) simp

lemma clearedGradientFlags_length: "clearedGradientFlags a = clearedGradientFlags b \<Longrightarrow> length a = length b"
  unfolding clearedGradientFlags_def by (rule map_eq_imp_length_eq)

lemma clearedGradientFlags_nth:
  assumes "clearedGradientFlags a = clearedGradientFlags b" "j < length a"
  shows "(a ! j)\<lparr>m_completedGradient := False\<rparr> = (b ! j)\<lparr>m_completedGradient := False\<rparr>"
proof -
  have "j < length b" using assms clearedGradientFlags_length by metis
  then have "clearedGradientFlags b ! j = (b ! j)\<lparr>m_completedGradient := False\<rparr>"
    by (simp add: clearedGradientFlags_def)
  moreover have "clearedGradientFlags a ! j = (a ! j)\<lparr>m_completedGradient := False\<rparr>"
    using assms(2) by (simp add: clearedGradientFlags_def)
  ultimately show ?thesis using assms(1) by simp
qed

lemma clearedGradientFlags_fields:
  assumes "clearedGradientFlags a = clearedGradientFlags b" "j < length a"
  shows "m_recurrentNodesForForward (a ! j) = m_recurrentNodesForForward (b ! j)"
    and "m_steppingDirection (a ! j) = m_steppingDirection (b ! j)"
    and "m_recurrentNodes (a ! j) = m_recurrentNodes (b ! j)"
proof -
  note eq = clearedGradientFlags_nth[OF assms]
  have "m_recurrentNodesForForward ((a ! j)\<lparr>m_completedGradient := False\<rparr>) =
      m_recurrentNodesForForward ((b ! j)\<lparr>m_completedGradient := False\<rparr>)" by (simp only: eq)
  then show "m_recurrentNodesForForward (a ! j) = m_recurrentNodesForForward (b ! j)" by simp
  have "m_steppingDirection ((a ! j)\<lparr>m_completedGradient := False\<rparr>) =
      m_steppingDirection ((b ! j)\<lparr>m_completedGradient := False\<rparr>)" by (simp only: eq)
  then show "m_steppingDirection (a ! j) = m_steppingDirection (b ! j)" by simp
  have "m_recurrentNodes ((a ! j)\<lparr>m_completedGradient := False\<rparr>) =
      m_recurrentNodes ((b ! j)\<lparr>m_completedGradient := False\<rparr>)" by (simp only: eq)
  then show "m_recurrentNodes (a ! j) = m_recurrentNodes (b ! j)" by simp
qed

lemma clearedGradientFlags_loopBackwardRun:
  assumes "clearedGradientFlags a = clearedGradientFlags b" "j < length a"
  shows "loopBackwardRun C (a ! j) seg = loopBackwardRun C (b ! j) seg"
  unfolding loopBackwardRun_def clearedGradientFlags_fields(1,2)[OF assms] by (rule refl)

lemma clearedGradientFlags_sameLoops:
  assumes "clearedGradientFlags a = clearedGradientFlags b"
  shows "sameLoops a b"
proof -
  have len: "length a = length b" using assms by (rule clearedGradientFlags_length)
  have "map m_recurrentNodes a = map m_recurrentNodes b"
    using len clearedGradientFlags_fields(3)[OF assms] by (intro nth_equalityI) simp_all
  moreover have "map m_recurrentNodesForForward a = map m_recurrentNodesForForward b"
    using len clearedGradientFlags_fields(1)[OF assms] by (intro nth_equalityI) simp_all
  ultimately show ?thesis by (simp add: sameLoops_def)
qed

lemma walkedBack_nil: "walkedBack C [] r [] ris ris"
  by (simp add: walkedBack_def)

lemma walkedBack_stop:
  assumes "r \<noteq> None"
  shows "walkedBack C ns r es ris ris"
  using assms by (auto simp: walkedBack_def)

lemma walkedBack_same:
  assumes rest: "walkedBack C ns r es2 ris ris'"
    and was: "\<forall>i. FindInRecurrentLoops ris n = Some i \<longrightarrow> m_completedGradient (ris ! i)"
  shows "walkedBack C (n # ns) r (es1 @ es2) ris ris'"
  unfolding walkedBack_def
proof (intro conjI allI impI ballI)
  show "clearedGradientFlags ris' = clearedGradientFlags ris" using rest by (simp add: walkedBack_def)
next
  fix j assume "j < length ris" "m_completedGradient (ris ! j)"
  then show "m_completedGradient (ris' ! j)" using rest by (simp add: walkedBack_def)
next
  fix j assume "j < length ris" "m_completedGradient (ris' ! j)" "\<not> m_completedGradient (ris ! j)"
  then obtain pre seg post where "es2 = pre @ seg @ post" "loopBackwardRun C (ris ! j) seg"
    using rest unfolding walkedBack_def by blast
  then show "\<exists>pre seg post. es1 @ es2 = pre @ seg @ post \<and> loopBackwardRun C (ris ! j) seg"
    by (intro exI[of _ "es1 @ pre"] exI[of _ seg] exI[of _ post]) simp
next
  fix m i
  assume r: "r = None" and m: "m \<in> set (n # ns)"
    and f: "FindInRecurrentLoops ris m = Some i"
  show "m_completedGradient (ris' ! i)"
  proof (cases "m = n")
    case True
    then have "m_completedGradient (ris ! i)" using was f by blast
    moreover have "i < length ris" using Find_Some[OF f] by simp
    ultimately show ?thesis using rest by (simp add: walkedBack_def)
  next
    case False
    with m have "m \<in> set ns" by simp
    then show ?thesis using rest r f unfolding walkedBack_def by blast
  qed
qed

lemma walkedBack_ran:
  assumes rest: "walkedBack C ns r es2 (ris[i := (ris ! i)\<lparr>m_completedGradient := True\<rparr>]) ris'"
    and f: "FindInRecurrentLoops ris n = Some i"
    and ran: "loopBackwardRun C (ris ! i) es1"
  shows "walkedBack C (n # ns) r (es1 @ es2) ris ris'"
proof -
  let ?mid = "ris[i := (ris ! i)\<lparr>m_completedGradient := True\<rparr>]"
  have i: "i < length ris" using Find_Some[OF f] by simp
  have cl: "clearedGradientFlags ?mid = clearedGradientFlags ris" by (rule clearedGradientFlags_update)
  have same: "sameLoops ris ?mid" by (rule sameLoops_updateG)
  have runs: "loopBackwardRun C (?mid ! j) seg = loopBackwardRun C (ris ! j) seg"
    if "j < length ris" for j seg
    using clearedGradientFlags_loopBackwardRun[OF cl, of j] that by simp
  have mid_i: "m_completedGradient (?mid ! i)" using i by simp
  have mid_j: "m_completedGradient (?mid ! j) = m_completedGradient (ris ! j)"
    if "j < length ris" "j \<noteq> i" for j
    using that by simp
  have keep: "m_completedGradient (?mid ! j)" if "j < length ris" "m_completedGradient (ris ! j)" for j
    using that i by (cases "j = i") simp_all
  show ?thesis
    unfolding walkedBack_def
  proof (intro conjI allI impI ballI)
    show "clearedGradientFlags ris' = clearedGradientFlags ris" using rest cl by (simp add: walkedBack_def)
  next
    fix j assume j: "j < length ris" "m_completedGradient (ris ! j)"
    have "m_completedGradient (?mid ! j)" using keep[OF j] .
    then show "m_completedGradient (ris' ! j)" using rest j(1) by (simp add: walkedBack_def)
  next
    fix j assume j: "j < length ris" and c': "m_completedGradient (ris' ! j)"
      and c: "\<not> m_completedGradient (ris ! j)"
    show "\<exists>pre seg post. es1 @ es2 = pre @ seg @ post \<and> loopBackwardRun C (ris ! j) seg"
    proof (cases "j = i")
      case True
      then show ?thesis using ran
        by (intro exI[of _ "[]"] exI[of _ es1] exI[of _ es2]) simp
    next
      case False
      then have "\<not> m_completedGradient (?mid ! j)" using mid_j[OF j] c by simp
      moreover have "j < length ?mid" using j by simp
      ultimately obtain pre seg post where
        "es2 = pre @ seg @ post" "loopBackwardRun C (?mid ! j) seg"
        using rest c' unfolding walkedBack_def by blast
      then show ?thesis using runs[OF j]
        by (intro exI[of _ "es1 @ pre"] exI[of _ seg] exI[of _ post]) simp
    qed
  next
    fix m k
    assume r: "r = None" and m: "m \<in> set (n # ns)"
      and fm: "FindInRecurrentLoops ris m = Some k"
    show "m_completedGradient (ris' ! k)"
    proof (cases "m = n")
      case True
      then have "k = i" using f fm by simp
      then show ?thesis using rest mid_i i by (simp add: walkedBack_def)
    next
      case False
      with m have mem: "m \<in> set ns" by simp
      have fm': "FindInRecurrentLoops ?mid m = Some k" using Find_sameLoops[OF same] fm by simp
      show ?thesis using rest r mem fm' unfolding walkedBack_def by blast
    qed
  qed
qed

lemma ComputeGradientWalk_walkedBack:
  assumes "forEach (ComputeGradientNode C) ns s = (r, s')"
  shows "\<exists>es. trace s' = trace s @ es \<and>
     walkedBack C ns r es (m_recurrentInfo s) (m_recurrentInfo s')"
  using assms
proof (induction ns arbitrary: s)
  case Nil
  then show ?case using walkedBack_nil by (intro exI[of _ "[]"]) simp
next
  case (Cons n ns)
  obtain r1 s1 where st: "ComputeGradientNode C n s = (r1, s1)"
    by (cases "ComputeGradientNode C n s")
  from ComputeGradientNode_effect[OF st] obtain es1 where t1: "trace s1 = trace s @ es1"
    and eff: "(m_recurrentInfo s1 = m_recurrentInfo s \<and>
        (r1 = None \<longrightarrow> (\<forall>i. FindInRecurrentLoops (m_recurrentInfo s) n = Some i \<longrightarrow>
           m_completedGradient (m_recurrentInfo s ! i)))) \<or>
      (\<exists>i. FindInRecurrentLoops (m_recurrentInfo s) n = Some i \<and>
         \<not> m_completedGradient (m_recurrentInfo s ! i) \<and>
         loopBackwardRun C (m_recurrentInfo s ! i) es1 \<and> r1 = None \<and>
         m_recurrentInfo s1 =
           (m_recurrentInfo s)[i := (m_recurrentInfo s ! i)\<lparr>m_completedGradient := True\<rparr>])"
    by (elim exE conjE)
  show ?case
  proof (cases r1)
    case (Some e)
    with Cons.prems st have rs: "r = Some e" "s' = s1" by simp_all
    have "m_recurrentInfo s1 = m_recurrentInfo s" using eff Some by auto
    then show ?thesis using rs t1 walkedBack_stop[of r C "n # ns" es1 "m_recurrentInfo s"]
      by (intro exI[of _ es1]) simp
  next
    case None
    with Cons.prems st have rest: "forEach (ComputeGradientNode C) ns s1 = (r, s')" by simp
    from Cons.IH[OF rest] obtain es2 where t2: "trace s' = trace s1 @ es2"
      and w: "walkedBack C ns r es2 (m_recurrentInfo s1) (m_recurrentInfo s')"
      by (elim exE conjE)
    have tr: "trace s' = trace s @ (es1 @ es2)" using t1 t2 by simp
    from eff show ?thesis
    proof (elim disjE conjE exE)
      assume ri: "m_recurrentInfo s1 = m_recurrentInfo s"
        and was: "r1 = None \<longrightarrow> (\<forall>i. FindInRecurrentLoops (m_recurrentInfo s) n = Some i \<longrightarrow>
           m_completedGradient (m_recurrentInfo s ! i))"
      have "walkedBack C (n # ns) r (es1 @ es2) (m_recurrentInfo s) (m_recurrentInfo s')"
        using walkedBack_same[of C ns r es2 "m_recurrentInfo s" "m_recurrentInfo s'" n es1]
          w ri was None by simp
      then show ?thesis using tr by (intro exI[of _ "es1 @ es2"] conjI)
    next
      fix i
      assume f: "FindInRecurrentLoops (m_recurrentInfo s) n = Some i"
        and ran: "loopBackwardRun C (m_recurrentInfo s ! i) es1"
        and ri: "m_recurrentInfo s1 =
           (m_recurrentInfo s)[i := (m_recurrentInfo s ! i)\<lparr>m_completedGradient := True\<rparr>]"
      have "walkedBack C (n # ns) r (es1 @ es2) (m_recurrentInfo s) (m_recurrentInfo s')"
        using walkedBack_ran[of C ns r es2 "m_recurrentInfo s" i "m_recurrentInfo s'" n es1]
          w ri f ran by simp
      then show ?thesis using tr by (intro exI[of _ "es1 @ es2"] conjI)
    qed
  qed
qed

text \<open>
  C10. The backward pass is unconditional. The traversal of \<^verbatim>\<open>ComputeGradient\<close> does
  not depend on what the nodes answer to \<^verbatim>\<open>IsFuncValueOlderThanInputs\<close>: replacing that
  query by any other leaves the traversal unchanged. When the traversal returns normally,
  every node of the gradient order that belongs to no loop has had, in this order,
  \<^verbatim>\<open>OnComputeGradientBeginIteration\<close>, optionally the masking of its gradient,
  \<^verbatim>\<open>ComputeGradientForChildren\<close> on the whole batch and \<^verbatim>\<open>OnComputeGradientEndIteration\<close>;
  and every loop with a member in the gradient order has \<^verbatim>\<open>m_completedGradient\<close> set and,
  if the flag was not set when the traversal started, has had its backward pass run to
  its end in this traversal: \<^verbatim>\<open>OnComputeGradientBeginIteration\<close> on each member, then
  \<^verbatim>\<open>ComputeGradientForChildren\<close> on the members in reverse order at each frame of the
  reversed frame iteration, then \<^verbatim>\<open>OnComputeGradientEndIteration\<close> on each member.
\<close>

theorem backward_pass_unconditional:
  "ComputeGradientWalk (C\<lparr>NodeIsFuncValueOlderThanInputs := f\<rparr>) ns s = ComputeGradientWalk C ns s \<and>
   (ComputeGradientWalk C ns s = (None, s') \<longrightarrow>
      (\<forall>m \<in> set ns. FindInRecurrentLoops (m_recurrentInfo s) m = None \<longrightarrow>
         (\<exists>pre seg post. trace s' = trace s @ pre @ seg @ post \<and> wholeBatchGradient m seg))) \<and>
   (ComputeGradientWalk C ns s = (None, s') \<longrightarrow>
      (\<forall>m \<in> set ns. \<forall>i. FindInRecurrentLoops (m_recurrentInfo s) m = Some i \<longrightarrow>
         m_completedGradient (m_recurrentInfo s' ! i) \<and>
         (\<not> m_completedGradient (m_recurrentInfo s ! i) \<longrightarrow>
            (\<exists>pre seg post. trace s' = trace s @ pre @ seg @ post \<and>
               loopBackwardRun C (m_recurrentInfo s ! i) seg))))"
proof (intro conjI impI ballI allI)
  show "ComputeGradientWalk (C\<lparr>NodeIsFuncValueOlderThanInputs := f\<rparr>) ns s = ComputeGradientWalk C ns s"
    by (simp add: ComputeGradientWalk_def ComputeGradientNode_stale)
next
  fix m
  assume "ComputeGradientWalk C ns s = (None, s')" and m: "m \<in> set ns"
    and fm: "FindInRecurrentLoops (m_recurrentInfo s) m = None"
  then have "forEach (ComputeGradientNode C) ns s = (None, s')" by (simp add: ComputeGradientWalk_def)
  from ComputeGradientWalk_nodes[OF this] m fm
  show "\<exists>pre seg post. trace s' = trace s @ pre @ seg @ post \<and> wholeBatchGradient m seg"
    by blast
next
  fix m i
  assume "ComputeGradientWalk C ns s = (None, s')" and m: "m \<in> set ns"
    and fm: "FindInRecurrentLoops (m_recurrentInfo s) m = Some i"
  then have "forEach (ComputeGradientNode C) ns s = (None, s')" by (simp add: ComputeGradientWalk_def)
  from ComputeGradientWalk_walkedBack[OF this] obtain es where tr: "trace s' = trace s @ es"
    and w: "walkedBack C ns None es (m_recurrentInfo s) (m_recurrentInfo s')"
    by (elim exE conjE)
  show "m_completedGradient (m_recurrentInfo s' ! i)"
    using w m fm unfolding walkedBack_def by blast
next
  fix m i
  assume "ComputeGradientWalk C ns s = (None, s')" and m: "m \<in> set ns"
    and fm: "FindInRecurrentLoops (m_recurrentInfo s) m = Some i"
    and open_loop: "\<not> m_completedGradient (m_recurrentInfo s ! i)"
  then have "forEach (ComputeGradientNode C) ns s = (None, s')" by (simp add: ComputeGradientWalk_def)
  from ComputeGradientWalk_walkedBack[OF this] obtain es where tr: "trace s' = trace s @ es"
    and w: "walkedBack C ns None es (m_recurrentInfo s) (m_recurrentInfo s')"
    by (elim exE conjE)
  have c: "m_completedGradient (m_recurrentInfo s' ! i)"
    using w m fm unfolding walkedBack_def by blast
  have i: "i < length (m_recurrentInfo s)" using Find_Some[OF fm] by simp
  from w i c open_loop obtain pre seg post where
    "es = pre @ seg @ post" "loopBackwardRun C (m_recurrentInfo s ! i) seg"
    unfolding walkedBack_def by blast
  then show "\<exists>pre seg post. trace s' = trace s @ pre @ seg @ post \<and>
               loopBackwardRun C (m_recurrentInfo s ! i) seg"
    using tr by (intro exI[of _ pre] exI[of _ seg] exI[of _ post]) simp
qed

text \<open>
  C10 on the example network: the loop of the nodes 3 and 4 is not completed when the
  traversal starts, and its backward pass is run over both frames, last frame first.
\<close>

theorem backward_pass_unconditional_witness:
  "fst (ComputeGradientWalk exContract [3, 4, 5] exNetwork) = None \<and>
   FindInRecurrentLoops (m_recurrentInfo exNetwork) 5 = None \<and>
   (\<exists>pre seg post. trace (snd (ComputeGradientWalk exContract [3, 4, 5] exNetwork)) =
        trace exNetwork @ pre @ seg @ post \<and> wholeBatchGradient 5 seg) \<and>
   ComputeGradientWalk (exContract\<lparr>NodeIsFuncValueOlderThanInputs := (\<lambda>st n. False)\<rparr>) [3, 4, 5] exNetwork =
     ComputeGradientWalk exContract [3, 4, 5] exNetwork \<and>
   FindInRecurrentLoops (m_recurrentInfo exNetwork) 3 = Some 0 \<and>
   \<not> m_completedGradient (m_recurrentInfo exNetwork ! 0) \<and>
   m_completedGradient (m_recurrentInfo (snd (ComputeGradientWalk exContract [3, 4, 5] exNetwork)) ! 0) \<and>
   (\<exists>pre seg post. trace (snd (ComputeGradientWalk exContract [3, 4, 5] exNetwork)) =
        trace exNetwork @ pre @ seg @ post \<and>
      filter backwardCall seg =
        [OnComputeGradientBeginIteration 4, OnComputeGradientBeginIteration 3,
         ComputeGradientForChildren 3 (Frame 7 1), ComputeGradientForChildren 4 (Frame 7 1),
         ComputeGradientForChildren 3 (Frame 7 0), ComputeGradientForChildren 4 (Frame 7 0),
         OnComputeGradientEndIteration 4, OnComputeGradientEndIteration 3])"
proof -
  let ?s' = "snd (ComputeGradientWalk exContract [3, 4, 5] exNetwork)"
  have run: "ComputeGradientWalk exContract [3, 4, 5] exNetwork = (None, ?s')"
    by (simp add: ex_walk)
  have f: "FindInRecurrentLoops (m_recurrentInfo exNetwork) 5 = None" by (simp add: ex_defs)
  have f3: "FindInRecurrentLoops (m_recurrentInfo exNetwork) 3 = Some 0" by (simp add: ex_defs)
  have open_loop: "\<not> m_completedGradient (m_recurrentInfo exNetwork ! 0)" by (simp add: ex_defs)
  note main = backward_pass_unconditional[where C = exContract and f = "\<lambda>st n. False"
      and ns = "[3, 4, 5]" and s = exNetwork and s' = ?s']
  have ok: "fst (ComputeGradientWalk exContract [3, 4, 5] exNetwork) = None" by (simp add: ex_walk)
  have mem: "5 \<in> set [3, 4, 5::nat]" by simp
  have mem3: "3 \<in> set [3, 4, 5::nat]" by simp
  from main[THEN conjunct2, THEN conjunct1, rule_format, OF run mem f]
  have ex: "\<exists>pre seg post. trace ?s' = trace exNetwork @ pre @ seg @ post \<and> wholeBatchGradient 5 seg" .
  note loop = main[THEN conjunct2, THEN conjunct2, rule_format, OF run mem3 f3]
  from loop have c: "m_completedGradient (m_recurrentInfo ?s' ! 0)" by (rule conjunct1)
  from loop[THEN conjunct2, rule_format, OF open_loop] obtain pre seg post where
    seg: "trace ?s' = trace exNetwork @ pre @ seg @ post"
    and ran: "loopBackwardRun exContract (m_recurrentInfo exNetwork ! 0) seg"
    by (elim exE conjE)
  from ran have "filter backwardCall seg =
        [OnComputeGradientBeginIteration 4, OnComputeGradientBeginIteration 3,
         ComputeGradientForChildren 3 (Frame 7 1), ComputeGradientForChildren 4 (Frame 7 1),
         ComputeGradientForChildren 3 (Frame 7 0), ComputeGradientForChildren 4 (Frame 7 0),
         OnComputeGradientEndIteration 4, OnComputeGradientEndIteration 3]"
    unfolding loopBackwardRun_def
    by (auto simp: ex_defs FrameRangeIteration_reverse_def FrameRangeIteration_def upt_rec)
  with seg have ex2: "\<exists>pre seg post. trace ?s' = trace exNetwork @ pre @ seg @ post \<and>
      filter backwardCall seg =
        [OnComputeGradientBeginIteration 4, OnComputeGradientBeginIteration 3,
         ComputeGradientForChildren 3 (Frame 7 1), ComputeGradientForChildren 4 (Frame 7 1),
         ComputeGradientForChildren 3 (Frame 7 0), ComputeGradientForChildren 4 (Frame 7 0),
         OnComputeGradientEndIteration 4, OnComputeGradientEndIteration 3]"
    by (intro exI[of _ pre] exI[of _ seg] exI[of _ post] conjI)
  show ?thesis using ok f ex main[THEN conjunct1] f3 open_loop c ex2 by (intro conjI)
qed

lemma ValidateSubNetwork_after_passes:
  assumes "reachesFinalPass C rootNode s pass s3"
  shows "ValidateSubNetwork C rootNode s =
     (case ValidateNodes C (GetEvalOrder C rootNode) True s3 of
        (Some e, toValidate, s4) \<Rightarrow> Some (Some e, pass, s4)
      | (None, toValidate, s4) \<Rightarrow>
          if toValidate \<noteq> 0 then Some (Some WorkLeftAfterFinalPass, pass, s4)
          else (case forEach (checkNonZero C) (GetEvalOrder C rootNode) s4 of
                  (r, s5) \<Rightarrow> Some (r, pass, s5)))"
proof -
  from assms obtain s1 s2 where
    l: "forEach (linkInput C) (InputNodes C rootNode) s = (None, s1)"
    and r: "forEach (resetNode C) (GetEvalOrder C rootNode) s1 = (None, s2)"
    and v: "validateLoop C (GetEvalOrder C rootNode) 0 (length (GetEvalOrder C rootNode)) s2 =
          Some (None, pass, s3)"
    unfolding reachesFinalPass_def by (elim exE conjE)
  show ?thesis
    by (simp only: ValidateSubNetwork_def Let_def l r v prod.case option.case)
qed

lemma ValidateSubNetwork_success:
  assumes "ValidateSubNetwork C rootNode s = Some (None, pass, s')"
  shows "\<exists>s3 s4. reachesFinalPass C rootNode s pass s3 \<and>
     ValidateNodes C (GetEvalOrder C rootNode) True s3 = (None, 0, s4) \<and>
     forEach (checkNonZero C) (GetEvalOrder C rootNode) s4 = (None, s')"
  using assms unfolding ValidateSubNetwork_def reachesFinalPass_def Let_def
  by (auto split: prod.splits option.splits if_splits)

lemma final_pass_from:
  assumes order: "ns = before @ m # after"
    and pre: "ValidateNodes C before True s3 = (None, todo, v)"
  shows "ValidateNodes C ns True s3 =
     (case ValidateNode C True m v of
        (Some e, valid, v1) \<Rightarrow> (Some e, todo, v1)
      | (None, valid, v1) \<Rightarrow> ValidateNodesFrom C after True (if valid then todo else Suc todo) v1)"
  using pre unfolding order ValidateNodes_def ValidateNodesFrom_append by simp

lemma final_pass_unvisited_fatal:
  assumes reach: "reachesFinalPass C rootNode s pass s3"
    and order: "GetEvalOrder C rootNode = before @ m # after"
    and pre: "ValidateNodes C before True s3 = (None, todo, v)"
    and unv: "\<not> list_all (m_visited (nodes v)) (GetChildren C m)"
  shows "\<exists>e w. ValidateSubNetwork C rootNode s = Some (Some e, pass, w)"
proof -
  note run = ValidateSubNetwork_after_passes[OF reach]
  note fin = final_pass_from[OF order pre]
  obtain r1 valid v1 where st: "ValidateNode C True m v = (r1, valid, v1)"
    by (cases "ValidateNode C True m v") auto
  show ?thesis
  proof (cases r1)
    case (Some e)
    then have "ValidateNodes C (GetEvalOrder C rootNode) True s3 = (Some e, todo, v1)"
      using fin st by simp
    then show ?thesis using run by simp
  next
    case None
    from ValidateNode_final_ok[OF st[unfolded None]] unv have nv: "\<not> valid" by blast
    obtain r2 todo2 w where rest: "ValidateNodesFrom C after True (Suc todo) v1 = (r2, todo2, w)"
      by (cases "ValidateNodesFrom C after True (Suc todo) v1") auto
    have all: "ValidateNodes C (GetEvalOrder C rootNode) True s3 = (r2, todo2, w)"
      using fin st None nv rest by simp
    have pos: "todo2 \<noteq> 0" using ValidateNodesFrom_todo[OF rest] by simp
    show ?thesis
    proof (cases r2)
      case None
      then show ?thesis using run all pos by simp
    next
      case (Some e)
      then show ?thesis using run all by simp
    qed
  qed
qed

lemma final_pass_skipped:
  assumes reach: "reachesFinalPass C rootNode s pass s3"
    and order: "GetEvalOrder C rootNode = before @ m # after"
    and pre: "ValidateNodes C before True s3 = (None, todo, v)"
    and skip: "\<not> validated C m v"
    and fin: "ValidateNodes C (GetEvalOrder C rootNode) True s3 = (None, todo', w)"
  shows "ValidateSubNetwork C rootNode s = Some (Some WorkLeftAfterFinalPass, pass, w)"
proof -
  note run = ValidateSubNetwork_after_passes[OF reach]
  have "ValidateNodesFrom C after True (Suc todo) v = (None, todo', w)"
    using final_pass_from[OF order pre] fin ValidateNode_skipped[OF skip, of True] by simp
  from ValidateNodesFrom_todo[OF this] have "todo' \<noteq> 0" by simp
  then show ?thesis using run fin by simp
qed

text \<open>
  C7, as amended. In the final validation pass, for every node of a pass that returns
  with no node to redo, \<^verbatim>\<open>Validate(true)\<close> has been called on the node with all its
  children visited, the layout pointer, the dimensions, the children's dimensions and the
  image layouts read before \<^verbatim>\<open>Validate(true)\<close> are those read at the end of the node's
  turn, and \<^verbatim>\<open>m_needsGradient\<close> read right after \<^verbatim>\<open>Validate(true)\<close> is unchanged by
  or-ing in the children's flags. When the external calls of a validated node return, its
  turn throws \<open>NonStableValidation\<close> exactly when one of these has changed, and otherwise
  throws when a child is not visited. A \<^verbatim>\<open>ValidateSubNetwork\<close> that returns normally has
  reached the final pass and made such a pass there. In a \<^verbatim>\<open>ValidateSubNetwork\<close> that
  reaches the final pass, a node that has a child not visited when its turn comes in the
  final pass is fatal: \<^verbatim>\<open>ValidateSubNetwork\<close> throws. If the node is not validated (it is
  no leaf and none of its children is visited) and the final pass goes to its end,
  \<^verbatim>\<open>ValidateSubNetwork\<close> throws because the final pass left work.
\<close>

theorem final_validation_pass:
  "(ValidateNodes C (pre @ n # post) True s = (None, 0, s') \<longrightarrow>
      (\<exists>s1 s2. ValidateNodes C pre True s = (None, 0, s1) \<and>
         ValidateNode C True n s1 = (None, True, s2) \<and>
         validated C n s1 \<and>
         list_all (m_visited (nodes s1)) (GetChildren C n) \<and>
         stableTuple C n s1 (afterValidate C True n s1) s2)) \<and>
   (validated C n t \<longrightarrow>
      callNode C (PrintSelfBeforeValidation n) t = (None, t1) \<longrightarrow>
      callNode C (Validate n True) t1 = (None, t2) \<longrightarrow>
      fst (ValidateNode C True n t) =
        (if \<not> stableTuple C n t t2 (propagateNeedsGradient n (GetChildren C n) (setVisited n True t2))
         then Some NonStableValidation
         else if \<not> list_all (m_visited (nodes t)) (GetChildren C n)
              then Some UnvisitedChildInFinalPass
         else None)) \<and>
   (ValidateSubNetwork C rootNode u = Some (None, pass, u') \<longrightarrow>
      (\<exists>u3 u4. reachesFinalPass C rootNode u pass u3 \<and>
         ValidateNodes C (GetEvalOrder C rootNode) True u3 = (None, 0, u4) \<and>
         forEach (checkNonZero C) (GetEvalOrder C rootNode) u4 = (None, u'))) \<and>
   (reachesFinalPass C rootNode u pass u3 \<longrightarrow>
      GetEvalOrder C rootNode = before @ m # after \<longrightarrow>
      ValidateNodes C before True u3 = (None, todo, v) \<longrightarrow>
      \<not> list_all (m_visited (nodes v)) (GetChildren C m) \<longrightarrow>
      (\<exists>e w. ValidateSubNetwork C rootNode u = Some (Some e, pass, w))) \<and>
   (reachesFinalPass C rootNode u pass u3 \<longrightarrow>
      GetEvalOrder C rootNode = before @ m # after \<longrightarrow>
      ValidateNodes C before True u3 = (None, todo, v) \<longrightarrow>
      \<not> validated C m v \<longrightarrow>
      ValidateNodes C (GetEvalOrder C rootNode) True u3 = (None, todo', w) \<longrightarrow>
      ValidateSubNetwork C rootNode u = Some (Some WorkLeftAfterFinalPass, pass, w))"
proof (intro conjI impI)
  assume "ValidateNodes C (pre @ n # post) True s = (None, 0, s')"
  then show "\<exists>s1 s2. ValidateNodes C pre True s = (None, 0, s1) \<and>
         ValidateNode C True n s1 = (None, True, s2) \<and>
         validated C n s1 \<and>
         list_all (m_visited (nodes s1)) (GetChildren C n) \<and>
         stableTuple C n s1 (afterValidate C True n s1) s2"
    by (rule final_pass_stable)
next
  assume "validated C n t" "callNode C (PrintSelfBeforeValidation n) t = (None, t1)"
    "callNode C (Validate n True) t1 = (None, t2)"
  from ValidateNode_validated[OF this]
  show "fst (ValidateNode C True n t) =
        (if \<not> stableTuple C n t t2 (propagateNeedsGradient n (GetChildren C n) (setVisited n True t2))
         then Some NonStableValidation
         else if \<not> list_all (m_visited (nodes t)) (GetChildren C n)
              then Some UnvisitedChildInFinalPass
         else None)"
    by (simp add: Let_def)
next
  assume "ValidateSubNetwork C rootNode u = Some (None, pass, u')"
  then show "\<exists>u3 u4. reachesFinalPass C rootNode u pass u3 \<and>
         ValidateNodes C (GetEvalOrder C rootNode) True u3 = (None, 0, u4) \<and>
         forEach (checkNonZero C) (GetEvalOrder C rootNode) u4 = (None, u')"
    by (rule ValidateSubNetwork_success)
next
  assume "reachesFinalPass C rootNode u pass u3"
    "GetEvalOrder C rootNode = before @ m # after"
    "ValidateNodes C before True u3 = (None, todo, v)"
    "\<not> list_all (m_visited (nodes v)) (GetChildren C m)"
  then show "\<exists>e w. ValidateSubNetwork C rootNode u = Some (Some e, pass, w)"
    by (rule final_pass_unvisited_fatal)
next
  assume "reachesFinalPass C rootNode u pass u3"
    "GetEvalOrder C rootNode = before @ m # after"
    "ValidateNodes C before True u3 = (None, todo, v)"
    "\<not> validated C m v"
    "ValidateNodes C (GetEvalOrder C rootNode) True u3 = (None, todo', w)"
  then show "ValidateSubNetwork C rootNode u = Some (Some WorkLeftAfterFinalPass, pass, w)"
    by (rule final_pass_skipped)
qed

lemma forget_run:
  "\<exists>u3 v w. reachesFinalPass forgetContract 3 exNetwork 2 u3 \<and>
     ValidateNodes forgetContract [5] True u3 = (None, 0, v) \<and>
     \<not> validated forgetContract 4 v \<and>
     \<not> list_all (m_visited (nodes v)) (GetChildren forgetContract 4) \<and>
     ValidateNodes forgetContract [5, 4, 3] True u3 = (None, Suc 0, w)"
proof -
  let ?C = "forgetContract"
  have a: "GetEvalOrder ?C 3 = [5, 4, 3]" "InputNodes ?C 3 = [5]"
    by (simp_all add: forgetContract_def exContract_def)
  obtain s1 where l: "forEach (linkInput ?C) [5] exNetwork = (None, s1)"
    and s1: "s1 = exNetwork\<lparr>trace := [LinkToMBLayout 5 7]\<rparr>"
    by (simp add: linkInput_def andThen_def callNode_def forgetContract_def ex_defs)
  obtain s2 where r: "forEach (resetNode ?C) [5, 4, 3] s1 = (None, s2)"
    and s2: "s2 = exNetwork\<lparr>trace := [LinkToMBLayout 5 7]\<rparr>"
    unfolding s1
    by (simp add: resetNode_def setVisited_def setNeedsGradient_def forgetContract_def ex_defs fun_upd_idem)
  have "\<exists>s3. validatePasses ?C [5, 4, 3] 2 0 3 s2 = Some (None, 2, s3) \<and>
          (\<exists>v. ValidateNodes ?C [5] True s3 = (None, 0, v) \<and>
             \<not> validated ?C 4 v \<and>
             \<not> list_all (m_visited (nodes v)) (GetChildren ?C 4) \<and>
             (\<exists>w. ValidateNodes ?C [5, 4, 3] True s3 = (None, Suc 0, w)))"
    unfolding s2 by (simp add: val_defs validated_def forgetContract_def ex_defs numeral_2_eq_2)
  then obtain s3 v w where p: "validatePasses ?C [5, 4, 3] 2 0 3 s2 = Some (None, 2, s3)"
    and f: "ValidateNodes ?C [5] True s3 = (None, 0, v)"
    and nv: "\<not> validated ?C 4 v"
    and na: "\<not> list_all (m_visited (nodes v)) (GetChildren ?C 4)"
    and g: "ValidateNodes ?C [5, 4, 3] True s3 = (None, Suc 0, w)" by blast
  have loop: "validateLoop ?C [5, 4, 3] 0 (length [5, 4, 3::nat]) s2 = Some (None, 2, s3)"
  proof -
    have "length [5, 4, 3::nat] = 3" by simp
    then show ?thesis using validateLoop_by_fuel[OF p] by (simp only:)
  qed
  have "reachesFinalPass ?C 3 exNetwork 2 s3"
    unfolding reachesFinalPass_def a
    using l r loop by (intro exI[of _ s1] exI[of _ s2] conjI)
  then show ?thesis using f nv na g by (intro exI[of _ s3] exI[of _ v] exI[of _ w] conjI)
qed

lemma ex_validate:
  "\<exists>u'. ValidateSubNetwork (dimContract (2, 3)) 3 exNetwork = Some (None, 2, u')"
proof -
  have "exNetwork\<lparr>trace := []\<rparr> = exNetwork" by (simp add: exNetwork_def)
  then show ?thesis using dim_validate[of "(2, 3)" "[]"] by simp
qed

text \<open>
  C7, as amended, on the example network: the final pass over the visited nodes, for the
  node in the middle of the order; a \<^verbatim>\<open>ValidateSubNetwork\<close> that returns normally; and
  one in which the child of the node 4 is not visited when the turn of the node 4 comes in
  the final pass, so that the node is skipped and the final pass leaves work.
\<close>

theorem final_validation_pass_witness:
  "(\<exists>s' s1 s2. ValidateNodes exContract ([5] @ 4 # [3]) True exVisited = (None, 0, s') \<and>
     ValidateNodes exContract [5] True exVisited = (None, 0, s1) \<and>
     ValidateNode exContract True 4 s1 = (None, True, s2) \<and>
     validated exContract 4 s1 \<and>
     stableTuple exContract 4 s1 (afterValidate exContract True 4 s1) s2) \<and>
   (\<exists>u' u3 u4. ValidateSubNetwork (dimContract (2, 3)) 3 exNetwork = Some (None, 2, u') \<and>
      reachesFinalPass (dimContract (2, 3)) 3 exNetwork 2 u3 \<and>
      ValidateNodes (dimContract (2, 3)) (GetEvalOrder (dimContract (2, 3)) 3) True u3 = (None, 0, u4)) \<and>
   (\<exists>u3 v w. reachesFinalPass forgetContract 3 exNetwork 2 u3 \<and>
      GetEvalOrder forgetContract 3 = [5] @ 4 # [3] \<and>
      ValidateNodes forgetContract [5] True u3 = (None, 0, v) \<and>
      \<not> validated forgetContract 4 v \<and>
      \<not> list_all (m_visited (nodes v)) (GetChildren forgetContract 4) \<and>
      ValidateNodes forgetContract (GetEvalOrder forgetContract 3) True u3 = (None, Suc 0, w) \<and>
      (\<exists>e w'. ValidateSubNetwork forgetContract 3 exNetwork = Some (Some e, 2, w')) \<and>
      ValidateSubNetwork forgetContract 3 exNetwork = Some (Some WorkLeftAfterFinalPass, 2, w))"
proof -
  have A: "\<exists>s' s1 s2. ValidateNodes exContract ([5] @ 4 # [3]) True exVisited = (None, 0, s') \<and>
     ValidateNodes exContract [5] True exVisited = (None, 0, s1) \<and>
     ValidateNode exContract True 4 s1 = (None, True, s2) \<and>
     validated exContract 4 s1 \<and>
     stableTuple exContract 4 s1 (afterValidate exContract True 4 s1) s2"
  proof -
    from ex_final_pass obtain s' where
      run: "ValidateNodes exContract ([5] @ 4 # [3]) True exVisited = (None, 0, s')" by blast
    from final_validation_pass[where C = exContract and pre = "[5]" and n = 4 and post = "[3]"
        and s = exVisited and s' = s', THEN conjunct1, rule_format, OF run]
    obtain s1 s2 where "ValidateNodes exContract [5] True exVisited = (None, 0, s1)"
      "ValidateNode exContract True 4 s1 = (None, True, s2)"
      "validated exContract 4 s1"
      "stableTuple exContract 4 s1 (afterValidate exContract True 4 s1) s2" by blast
    then show ?thesis using run by blast
  qed
  have B: "\<exists>u' u3 u4. ValidateSubNetwork (dimContract (2, 3)) 3 exNetwork = Some (None, 2, u') \<and>
      reachesFinalPass (dimContract (2, 3)) 3 exNetwork 2 u3 \<and>
      ValidateNodes (dimContract (2, 3)) (GetEvalOrder (dimContract (2, 3)) 3) True u3 = (None, 0, u4)"
  proof -
    from ex_validate obtain u' where
      run: "ValidateSubNetwork (dimContract (2, 3)) 3 exNetwork = Some (None, 2, u')" by blast
    from final_validation_pass[where C = "dimContract (2, 3)" and rootNode = 3 and u = exNetwork
        and pass = 2 and u' = u', THEN conjunct2, THEN conjunct2, THEN conjunct1, rule_format, OF run]
    obtain u3 u4 where "reachesFinalPass (dimContract (2, 3)) 3 exNetwork 2 u3"
      "ValidateNodes (dimContract (2, 3)) (GetEvalOrder (dimContract (2, 3)) 3) True u3 = (None, 0, u4)"
      by (elim exE conjE)
    then show ?thesis using run by (intro exI[of _ u'] exI[of _ u3] exI[of _ u4] conjI)
  qed
  have Cc: "\<exists>u3 v w. reachesFinalPass forgetContract 3 exNetwork 2 u3 \<and>
      GetEvalOrder forgetContract 3 = [5] @ 4 # [3] \<and>
      ValidateNodes forgetContract [5] True u3 = (None, 0, v) \<and>
      \<not> validated forgetContract 4 v \<and>
      \<not> list_all (m_visited (nodes v)) (GetChildren forgetContract 4) \<and>
      ValidateNodes forgetContract (GetEvalOrder forgetContract 3) True u3 = (None, Suc 0, w) \<and>
      (\<exists>e w'. ValidateSubNetwork forgetContract 3 exNetwork = Some (Some e, 2, w')) \<and>
      ValidateSubNetwork forgetContract 3 exNetwork = Some (Some WorkLeftAfterFinalPass, 2, w)"
  proof -
    from forget_run obtain u3 v w where
      reach: "reachesFinalPass forgetContract 3 exNetwork 2 u3"
      and pre: "ValidateNodes forgetContract [5] True u3 = (None, 0, v)"
      and nv: "\<not> validated forgetContract 4 v"
      and na: "\<not> list_all (m_visited (nodes v)) (GetChildren forgetContract 4)"
      and g: "ValidateNodes forgetContract [5, 4, 3] True u3 = (None, Suc 0, w)"
      by (elim exE conjE)
    have order: "GetEvalOrder forgetContract 3 = [5] @ 4 # [3]"
      by (simp add: forgetContract_def exContract_def)
    have fin: "ValidateNodes forgetContract (GetEvalOrder forgetContract 3) True u3 = (None, Suc 0, w)"
      using g order by simp
    note main = final_validation_pass[where C = forgetContract and rootNode = 3 and u = exNetwork
        and pass = 2 and ?u3.0 = u3 and before = "[5]" and m = 4 and after = "[3]" and todo = 0
        and v = v and todo' = "Suc 0" and w = w]
    from main[THEN conjunct2, THEN conjunct2, THEN conjunct2, THEN conjunct1, rule_format,
        OF reach order pre na]
    have fatal: "\<exists>e w'. ValidateSubNetwork forgetContract 3 exNetwork = Some (Some e, 2, w')" .
    from main[THEN conjunct2, THEN conjunct2, THEN conjunct2, THEN conjunct2, rule_format,
        OF reach order pre nv fin]
    have left: "ValidateSubNetwork forgetContract 3 exNetwork = Some (Some WorkLeftAfterFinalPass, 2, w)" .
    show ?thesis using reach order pre nv na fin fatal left
      by (intro exI[of _ u3] exI[of _ v] exI[of _ w] conjI)
  qed
  show ?thesis using A B Cc by (intro conjI)
qed

end
